theory Spec2Isabelle
  imports Main
begin

section \<open>JavaScript strings and values\<close>

text \<open>
  A JavaScript string is a sequence of UTF-16 code units; \<open>length\<close>, \<open>slice\<close> and the
  regular expressions of the sources count code units. A string is therefore a list of
  code units (natural numbers below 65536), and an ASCII literal is written \<open>js ''abc''\<close>.
\<close>

type_synonym jsstring = "nat list"

definition js :: "string \<Rightarrow> jsstring" where
  "js s = map of_char s"

text \<open>
  The values a type specifier can take. Numbers are the integral ones and \<open>NaN\<close>;
  arrays stand for every object (all objects are truthy).
\<close>

datatype js_value =
    JNull
  | JUndefined
  | JBool bool
  | JNum int
  | JNaN
  | JStr jsstring
  | JArr "js_value list"

text \<open>The truthiness test of \<^verbatim>\<open>if (specifier)\<close>.\<close>

fun truthy :: "js_value \<Rightarrow> bool" where
  "truthy JNull = False"
| "truthy JUndefined = False"
| "truthy (JBool b) = b"
| "truthy (JNum n) = (n \<noteq> 0)"
| "truthy JNaN = False"
| "truthy (JStr s) = (s \<noteq> [])"
| "truthy (JArr xs) = True"

section \<open>PgPolymorphicPlan\<close>

text \<open>
  \<^verbatim>\<open>possibleTypes\<close> is an object from type names to \<^verbatim>\<open>{match, plan}\<close>; its keys are
  GraphQL type names, which \<^verbatim>\<open>Object.keys\<close> lists in insertion order, so the object is an
  association list in declaration order. Only \<^verbatim>\<open>match\<close> takes part in execution.
  A property read \<^verbatim>\<open>possibleTypes[t]\<close> is \<open>map_of\<close>.
\<close>

type_synonym PgPolymorphicTypeMap = "(jsstring \<times> (js_value \<Rightarrow> bool)) list"

record PgPolymorphicPlan =
  typeSpecifierPlanId :: nat
  itemPlanId :: nat
  types :: "jsstring list"
  possibleTypes :: PgPolymorphicTypeMap

text \<open>
  The constructor. \<^verbatim>\<open>addDependency\<close> belongs to the base class \<^verbatim>\<open>ExecutablePlan\<close>, which
  is not among the sources; the two indices it returns are parameters here.
\<close>

definition PgPolymorphicPlan_new :: "nat \<Rightarrow> nat \<Rightarrow> PgPolymorphicTypeMap \<Rightarrow> PgPolymorphicPlan" where
  "PgPolymorphicPlan_new itemIdx specifierIdx pts =
     \<lparr> typeSpecifierPlanId = specifierIdx,
       itemPlanId = itemIdx,
       types = map fst pts,
       possibleTypes = pts \<rparr>"

datatype pg_error =
    TypeError
  | CouldNotDetermineType

text \<open>
  \<^verbatim>\<open>this.types.find((t) => this.possibleTypes[t].match(specifier))\<close>: the first type name,
  in the order of \<^verbatim>\<open>types\<close>, whose predicate accepts the specifier. Reading \<^verbatim>\<open>match\<close> of a
  missing entry throws a \<^verbatim>\<open>TypeError\<close>.
\<close>

fun find_type :: "PgPolymorphicTypeMap \<Rightarrow> js_value \<Rightarrow> jsstring list \<Rightarrow> pg_error + jsstring option" where
  "find_type pts specifier [] = Inr None"
| "find_type pts specifier (t # ts) =
     (case map_of pts t of
        None \<Rightarrow> Inl TypeError
      | Some m \<Rightarrow> if m specifier then Inr (Some t) else find_type pts specifier ts)"

text \<open>
  \<^verbatim>\<open>if (!t) throw new Error("Could not determine the type ...")\<close>: \<^verbatim>\<open>!t\<close> holds when
  nothing was found and also when the name found is the empty string. The
  \<^verbatim>\<open>console.error\<close> of development mode is a log line and is left out.
\<close>

definition getTypeNameFromSpecifier :: "PgPolymorphicPlan \<Rightarrow> js_value \<Rightarrow> pg_error + jsstring" where
  "getTypeNameFromSpecifier p specifier =
     (case find_type (possibleTypes p) specifier (types p) of
        Inl e \<Rightarrow> Inl e
      | Inr None \<Rightarrow> Inl CouldNotDetermineType
      | Inr (Some t) \<Rightarrow> if t = [] then Inl CouldNotDetermineType else Inr t)"

text \<open>
  The callback that \<^verbatim>\<open>execute\<close> maps over the rows. \<^verbatim>\<open>polymorphicWrap\<close> is imported from
  another package and is the parameter \<open>wrap\<close>; \<open>None\<close> is the \<^verbatim>\<open>null\<close> result.
\<close>

definition execute_row :: "PgPolymorphicPlan \<Rightarrow> (jsstring \<Rightarrow> 'w) \<Rightarrow> js_value \<Rightarrow> pg_error + 'w option" where
  "execute_row p wrap specifier =
     (if truthy specifier then
        (case getTypeNameFromSpecifier p specifier of
           Inl e \<Rightarrow> Inl e
         | Inr typeName \<Rightarrow> Inr (Some (wrap typeName)))
      else Inr None)"

text \<open>
  \<^verbatim>\<open>Array.prototype.map\<close> with a callback that may throw: rows are visited in order and the
  first exception leaves the whole call.
\<close>

fun map_rows :: "('a \<Rightarrow> 'e + 'b) \<Rightarrow> 'a list \<Rightarrow> 'e + 'b list" where
  "map_rows f [] = Inr []"
| "map_rows f (x # xs) =
     (case f x of
        Inl e \<Rightarrow> Inl e
      | Inr y \<Rightarrow> (case map_rows f xs of Inl e \<Rightarrow> Inl e | Inr ys \<Rightarrow> Inr (y # ys)))"

text \<open>
  \<^verbatim>\<open>execute(values)\<close>: \<^verbatim>\<open>values[this.typeSpecifierPlanId]\<close> is \<^verbatim>\<open>undefined\<close> when the index is
  out of range, and calling \<^verbatim>\<open>.map\<close> on it throws a \<^verbatim>\<open>TypeError\<close>.
\<close>

definition execute :: "PgPolymorphicPlan \<Rightarrow> (jsstring \<Rightarrow> 'w) \<Rightarrow> js_value list list \<Rightarrow> pg_error + 'w option list" where
  "execute p wrap values =
     (if typeSpecifierPlanId p < length values
      then map_rows (execute_row p wrap) (values ! typeSpecifierPlanId p)
      else Inl TypeError)"

subsection \<open>Sample plans and batches\<close>

text \<open>
  Two types: \<open>A\<close> accepts the specifier \<^verbatim>\<open>"a"\<close>; \<open>B\<close> accepts \<^verbatim>\<open>"b"\<close> and also \<^verbatim>\<open>"a"\<close>, so
  that declaration order decides for \<^verbatim>\<open>"a"\<close>.
\<close>

definition example_types :: PgPolymorphicTypeMap where
  "example_types =
     [(js ''A'', \<lambda>s. s = JStr (js ''a'')),
      (js ''B'', \<lambda>s. s = JStr (js ''b'') \<or> s = JStr (js ''a''))]"

definition example_plan :: PgPolymorphicPlan where
  "example_plan = PgPolymorphicPlan_new 0 1 example_types"

text \<open>Five rows; the specifier of row 2 is accepted by no type.\<close>

definition example_batch :: "js_value list list" where
  "example_batch =
     [[JNum 10, JNum 11, JNum 12, JNum 13, JNum 14],
      [JStr (js ''a''), JStr (js ''b''), JStr (js ''zzz''), JNull, JStr (js ''b'')]]"

text \<open>One row, accepted by no type.\<close>

definition unmatched_batch :: "js_value list list" where
  "unmatched_batch = [[JNum 10], [JStr (js ''zzz'')]]"

text \<open>Three rows, each of them accepted or \<^verbatim>\<open>null\<close>.\<close>

definition good_batch :: "js_value list list" where
  "good_batch =
     [[JNum 10, JNum 11, JNum 12],
      [JStr (js ''a''), JNull, JStr (js ''b'')]]"

text \<open>Rows whose specifiers are all falsy.\<close>

definition falsy_batch :: "js_value list list" where
  "falsy_batch =
     [[JNum 10, JNum 11, JNum 12, JNum 13, JNum 14, JNum 15],
      [JNull, JUndefined, JBool False, JNum 0, JNaN, JStr []]]"

text \<open>
  A plan whose \<^verbatim>\<open>types\<close> names an entry that \<^verbatim>\<open>possibleTypes\<close> lacks: consulting any
  predicate of it throws.
\<close>

definition poisoned_plan :: PgPolymorphicPlan where
  "poisoned_plan =
     \<lparr> typeSpecifierPlanId = 1, itemPlanId = 0, types = [js ''X''], possibleTypes = [] \<rparr>"

text \<open>One row whose specifier is the number 0: not \<^verbatim>\<open>null\<close>, and accepted by no type.\<close>

definition zero_batch :: "js_value list list" where
  "zero_batch = [[JNum 10], [JNum 0]]"

text \<open>Two rows: a \<^verbatim>\<open>null\<close> specifier, then one accepted by no type.\<close>

definition null_then_unmatched_batch :: "js_value list list" where
  "null_then_unmatched_batch = [[JNum 10, JNum 11], [JNull, JStr (js ''zzz'')]]"

section \<open>Behavior\<close>

text \<open>
  The white space of the regular expression class \<^verbatim>\<open>\s\<close>: tab, line feed, vertical tab,
  form feed, carriage return, space, no-break space, the Unicode space separators, the
  line and paragraph separators and the byte order mark.
\<close>

definition is_space :: "nat \<Rightarrow> bool" where
  "is_space c \<longleftrightarrow>
     (9 \<le> c \<and> c \<le> 13) \<or> c = 32 \<or> c = 160 \<or> c = 5760 \<or> (8192 \<le> c \<and> c \<le> 8202) \<or>
     c = 8232 \<or> c = 8233 \<or> c = 8239 \<or> c = 8287 \<or> c = 12288 \<or> c = 65279"

text \<open>
  \<^verbatim>\<open>str.split(/\s+/)\<close>: the pieces between the maximal runs of white space. A run at the
  start or at the end of the string leaves an empty piece there, and the empty string
  gives one empty piece. \<open>acc\<close> is the current piece, reversed.
\<close>

function split_spaces_from :: "jsstring \<Rightarrow> jsstring \<Rightarrow> jsstring list" where
  "split_spaces_from acc [] = [rev acc]"
| "split_spaces_from acc (c # cs) =
     (if is_space c then rev acc # split_spaces_from [] (dropWhile is_space cs)
      else split_spaces_from (c # acc) cs)"
  by pat_completeness auto
termination
  by (relation "measure (\<lambda>(acc, s). length s)")
    (auto simp: less_Suc_eq_le length_dropWhile_le)

definition split_spaces :: "jsstring \<Rightarrow> jsstring list" where
  "split_spaces s = split_spaces_from [] s"

text \<open>\<^verbatim>\<open>str.split(":")\<close>; the colon is the code unit 58.\<close>

fun split_colon_from :: "jsstring \<Rightarrow> jsstring \<Rightarrow> jsstring list" where
  "split_colon_from acc [] = [rev acc]"
| "split_colon_from acc (c # cs) =
     (if c = 58 then rev acc # split_colon_from [] cs
      else split_colon_from (c # acc) cs)"

type_synonym BehaviorScope = "jsstring list"

record BehaviorSpec =
  positive :: bool
  scope :: BehaviorScope

definition parseScope :: "jsstring \<Rightarrow> BehaviorScope" where
  "parseScope scopeString = split_colon_from [] scopeString"

text \<open>
  One fragment of \<^verbatim>\<open>parseSpecs\<close>: a leading \<^verbatim>\<open>+\<close> (43) or \<^verbatim>\<open>-\<close> (45) is the sign and is
  cut off; without one the sign is \<^verbatim>\<open>+\<close>.
\<close>

definition parseSpec :: "jsstring \<Rightarrow> BehaviorSpec" where
  "parseSpec fragment =
     (case fragment of
        c # rest \<Rightarrow>
          if c = 43 \<or> c = 45 then \<lparr> positive = (c = 43), scope = parseScope rest \<rparr>
          else \<lparr> positive = True, scope = parseScope fragment \<rparr>
      | [] \<Rightarrow> \<lparr> positive = True, scope = parseScope fragment \<rparr>)"

definition parseSpecs :: "jsstring \<Rightarrow> BehaviorSpec list" where
  "parseSpecs behaviorSpecsString = map parseSpec (split_spaces behaviorSpecsString)"

text \<open>
  The loop of \<^verbatim>\<open>scopeMatches\<close> over the entries of the trimmed filter scope, the rule being
  the entry of the specified scope at the same index. The star is the string of the one
  code unit 42. A rule read past the end of the specified scope is \<^verbatim>\<open>undefined\<close>, which
  is different from every string.
\<close>

fun scopeMatches_loop :: "BehaviorScope \<Rightarrow> BehaviorScope \<Rightarrow> bool \<Rightarrow> bool" where
  "scopeMatches_loop rules [] pos = True"
| "scopeMatches_loop (rule # rules) (filt # filts) pos =
     (if filt = [42] \<and> rule \<noteq> [42] \<and> \<not> pos then False
      else if rule = [42] \<or> filt = [42] then scopeMatches_loop rules filts pos
      else if rule \<noteq> filt then False
      else scopeMatches_loop rules filts pos)"
| "scopeMatches_loop [] (filt # filts) pos =
     (if filt = [42] \<and> \<not> pos then False
      else if filt = [42] then scopeMatches_loop [] filts pos
      else False)"

definition scopeMatches :: "BehaviorScope \<Rightarrow> BehaviorScope \<Rightarrow> bool \<Rightarrow> bool" where
  "scopeMatches specifiedScope filterScope pos =
     (if length specifiedScope > length filterScope then False
      else
        let filterScopeTrimmed =
          (if length specifiedScope = length filterScope then filterScope
           else drop (length filterScope - length specifiedScope) filterScope)
        in scopeMatches_loop specifiedScope filterScopeTrimmed pos)"

text \<open>The class \<^verbatim>\<open>Behavior\<close> has one field.\<close>

record Behavior =
  globalBehaviorDefaults :: jsstring

definition addDefaultBehavior :: "Behavior \<Rightarrow> jsstring \<Rightarrow> Behavior" where
  "addDefaultBehavior this behavior =
     (if globalBehaviorDefaults this \<noteq> []
      then this\<lparr> globalBehaviorDefaults := globalBehaviorDefaults this @ js '' '' @ behavior \<rparr>
      else this\<lparr> globalBehaviorDefaults := behavior \<rparr>)"

text \<open>The first argument of \<^verbatim>\<open>matches\<close>: \<^verbatim>\<open>string | string[] | null | undefined\<close>.\<close>

datatype local_specs =
    SpecString jsstring
  | SpecArray "jsstring list"
  | SpecNull
  | SpecUndefined

text \<open>\<^verbatim>\<open>array.join(" ")\<close>.\<close>

fun join_space :: "jsstring list \<Rightarrow> jsstring" where
  "join_space [] = []"
| "join_space [x] = x"
| "join_space (x # y # ys) = x @ js '' '' @ join_space (y # ys)"

text \<open>
  The string that \<^verbatim>\<open>matches\<close> parses: the plugin's default, the global defaults and the
  entity's own specs, with one space between them; \<^verbatim>\<open>null\<close> and \<^verbatim>\<open>undefined\<close> count as
  the empty string.
\<close>

definition finalBehaviorSpecsString :: "Behavior \<Rightarrow> local_specs \<Rightarrow> jsstring \<Rightarrow> jsstring" where
  "finalBehaviorSpecsString this localBehaviorSpecsString defaultBehavior =
     (let specString =
        (case localBehaviorSpecsString of
           SpecString s \<Rightarrow> s
         | SpecArray xs \<Rightarrow> join_space xs
         | SpecNull \<Rightarrow> []
         | SpecUndefined \<Rightarrow> [])
      in defaultBehavior @ js '' '' @ globalBehaviorDefaults this @ js '' '' @ specString)"

text \<open>
  The loop of \<^verbatim>\<open>matches\<close>, backwards through the specs: \<open>n\<close> is \<^verbatim>\<open>i + 1\<close>, and \<open>None\<close> is
  the result \<^verbatim>\<open>undefined\<close>.
\<close>

fun matches_loop :: "BehaviorSpec list \<Rightarrow> BehaviorScope \<Rightarrow> nat \<Rightarrow> bool option" where
  "matches_loop specs filterScope 0 = None"
| "matches_loop specs filterScope (Suc i) =
     (if scopeMatches (scope (specs ! i)) filterScope (positive (specs ! i))
      then Some (positive (specs ! i))
      else matches_loop specs filterScope i)"

text \<open>
  \<^verbatim>\<open>matches(localBehaviorSpecsString, filter, defaultBehavior = "")\<close>; an omitted default is
  \<open>None\<close>.
\<close>

definition matches :: "Behavior \<Rightarrow> local_specs \<Rightarrow> jsstring \<Rightarrow> jsstring option \<Rightarrow> bool option" where
  "matches this localBehaviorSpecsString filt defaultBehavior =
     (let specs = parseSpecs (finalBehaviorSpecsString this localBehaviorSpecsString
                    (case defaultBehavior of None \<Rightarrow> [] | Some d \<Rightarrow> d));
          filterScope = parseScope filt
      in matches_loop specs filterScope (length specs))"

subsection \<open>The words of a behavior string\<close>

text \<open>
  The words of a string are its maximal runs of code units that are not white space, in
  order; \<open>acc\<close> holds the word being read, reversed. The layers of the string that
  \<^verbatim>\<open>matches\<close> parses are stated with them.
\<close>

fun words_from :: "jsstring \<Rightarrow> jsstring \<Rightarrow> jsstring list" where
  "words_from acc [] = (if acc = [] then [] else [rev acc])"
| "words_from acc (c # cs) =
     (if is_space c then (if acc = [] then [] else [rev acc]) @ words_from [] cs
      else words_from (c # acc) cs)"

definition spec_words :: "jsstring \<Rightarrow> jsstring list" where
  "spec_words s = words_from [] s"

text \<open>The words of the entity's own specs: for an array, those of its elements in order.\<close>

definition local_words :: "local_specs \<Rightarrow> jsstring list" where
  "local_words l =
     (case l of
        SpecString s \<Rightarrow> spec_words s
      | SpecArray xs \<Rightarrow> concat (map spec_words xs)
      | SpecNull \<Rightarrow> []
      | SpecUndefined \<Rightarrow> [])"

text \<open>
  Whether the entity's own specs, as a string, are empty or end with white space:
  \<^verbatim>\<open>String.prototype.split\<close> then gives an empty string after the last word.
\<close>

definition local_open_end :: "local_specs \<Rightarrow> bool" where
  "local_open_end l =
     (case l of
        SpecString s \<Rightarrow> s = [] \<or> is_space (last s)
      | SpecArray xs \<Rightarrow> xs = [] \<or> last xs = [] \<or> is_space (last (last xs))
      | SpecNull \<Rightarrow> True
      | SpecUndefined \<Rightarrow> True)"

subsection \<open>A sample behavior\<close>

text \<open>
  The global defaults \<^verbatim>\<open>-connection\<close>, an entity with \<^verbatim>\<open>+list -list:filter\<close>, and no
  plugin default.
\<close>

definition example_behavior :: Behavior where
  "example_behavior = \<lparr> globalBehaviorDefaults = js ''-connection'' \<rparr>"

definition example_local :: local_specs where
  "example_local = SpecString (js ''+list -list:filter'')"

text \<open>The same specs as an array, and a behavior without global defaults.\<close>

definition example_array :: local_specs where
  "example_array = SpecArray [js ''+list'', js ''-list:filter'']"

definition empty_behavior :: Behavior where
  "empty_behavior = \<lparr> globalBehaviorDefaults = [] \<rparr>"

section \<open>Middlewares\<close>

text \<open>
  What a call can throw: the error of \<^verbatim>\<open>executeMiddleware\<close> (it names the activity and the
  index of the middleware), the error of \<^verbatim>\<open>next.callback\<close> called twice, the \<^verbatim>\<open>TypeError\<close>
  of calling \<^verbatim>\<open>middlewares[idx]\<close> when it is \<^verbatim>\<open>undefined\<close>, and any error of a middleware
  or of the activity, told apart by a number.
\<close>

datatype mw_error =
    SynchronousActivityError jsstring nat
  | NextAlreadyCalled
  | NotAFunction
  | UserError nat

text \<open>
  \<^verbatim>\<open>isPromiseLike\<close> is imported from \<^verbatim>\<open>utils.js\<close>, which is not among the sources. A
  result is either a value it rejects (\<open>Plain\<close>) or one it accepts (\<open>PromiseLike\<close>), and
  a promise carries what it settles to: a rejection or a value.
\<close>

datatype 'v js_result =
    Plain 'v
  | PromiseLike "mw_error + 'v"

fun isPromiseLike :: "'v js_result \<Rightarrow> bool" where
  "isPromiseLike (Plain v) = False"
| "isPromiseLike (PromiseLike s) = True"

text \<open>What a call comes to: an error thrown or a result returned.\<close>

type_synonym 'v outcome = "mw_error + 'v js_result"

text \<open>The parameter of the callback of \<^verbatim>\<open>next.callback\<close>: \<^verbatim>\<open>{error}\<close> or \<^verbatim>\<open>{result}\<close>.\<close>

datatype 'v callback_params =
    CbError mw_error
  | CbResult 'v

text \<open>
  A middleware is any function of \<^verbatim>\<open>next\<close> and \<^verbatim>\<open>arg\<close>. Its body is a program that
  returns, throws, calls \<^verbatim>\<open>next()\<close> and goes on with what the call returned or threw
  (catching is going on after an error; not catching is throwing it again), or calls
  \<^verbatim>\<open>next.callback(cb)\<close> with a callback that is such a program too. Middlewares and the
  activity are deterministic: calling \<^verbatim>\<open>next()\<close> again gives the same outcome.
\<close>

datatype 'v middleware_body =
    Return "'v js_result"
  | Throw mw_error
  | CallNext "'v outcome \<Rightarrow> 'v middleware_body"
  | CallNextCallback "'v callback_params \<Rightarrow> 'v middleware_body" "'v outcome \<Rightarrow> 'v middleware_body"

type_synonym ('a, 'v) middleware = "'a \<Rightarrow> 'v middleware_body"

text \<open>What a promise settles to when it is resolved with the outcome of a callback.\<close>

fun settle :: "'v outcome \<Rightarrow> mw_error + 'v" where
  "settle (Inl e) = Inl e"
| "settle (Inr (Plain v)) = Inr v"
| "settle (Inr (PromiseLike s)) = s"

text \<open>
  Running the body of a middleware against the \<^verbatim>\<open>next\<close> that \<^verbatim>\<open>makeNext(fn)\<close> made:
  \<open>nxt\<close> is the outcome of \<^verbatim>\<open>fn()\<close> and \<open>called\<close> the flag of \<^verbatim>\<open>makeNext\<close>.
  \<^verbatim>\<open>next()\<close> is \<^verbatim>\<open>fn()\<close>. \<^verbatim>\<open>next.callback(cb)\<close> throws when the flag is set; otherwise it
  sets the flag and calls \<^verbatim>\<open>fn()\<close>: an error thrown goes to the callback as \<^verbatim>\<open>{error}\<close>, a
  plain result as \<^verbatim>\<open>{result}\<close>, and a promise-like result gives the promise of
  \<^verbatim>\<open>result.then(...)\<close>, which settles to what the callback makes of the settlement.
\<close>

primrec run_middleware :: "'v outcome \<Rightarrow> 'v middleware_body \<Rightarrow> bool \<Rightarrow> 'v outcome" where
  "run_middleware nxt (Return r) called = Inr r"
| "run_middleware nxt (Throw e) called = Inl e"
| "run_middleware nxt (CallNext k) called = run_middleware nxt (k nxt) called"
| "run_middleware nxt (CallNextCallback cb k) called =
     (if called then run_middleware nxt (k (Inl NextAlreadyCalled)) True
      else
        (let returned =
           (case nxt of
              Inl error \<Rightarrow> run_middleware nxt (cb (CbError error)) True
            | Inr (Plain result) \<Rightarrow> run_middleware nxt (cb (CbResult result)) True
            | Inr (PromiseLike s) \<Rightarrow>
                Inr (PromiseLike
                  (case s of
                     Inr result \<Rightarrow> settle (run_middleware nxt (cb (CbResult result)) True)
                   | Inl error \<Rightarrow> settle (run_middleware nxt (cb (CbError error)) True))))
         in run_middleware nxt (k returned) True))"

text \<open>
  \<^verbatim>\<open>executeMiddleware\<close>. \<^verbatim>\<open>next\<close> runs the activity when \<^verbatim>\<open>idx === maxIdx\<close> and the next
  middleware otherwise; calling \<^verbatim>\<open>middlewares[idx]\<close> beyond the array throws.
\<close>

function executeMiddleware ::
  "jsstring \<Rightarrow> bool \<Rightarrow> ('a, 'v) middleware list \<Rightarrow> ('a \<Rightarrow> 'v outcome) \<Rightarrow> 'a \<Rightarrow> nat \<Rightarrow> int \<Rightarrow> 'v outcome"
where
  "executeMiddleware activityName allowAsync middlewares activity arg idx maxIdx =
     (if idx < length middlewares then
        (case run_middleware
                (if int idx = maxIdx then activity arg
                 else executeMiddleware activityName allowAsync middlewares activity arg (idx + 1) maxIdx)
                ((middlewares ! idx) arg) False of
           Inl e \<Rightarrow> Inl e
         | Inr result \<Rightarrow>
             if \<not> allowAsync \<and> isPromiseLike result
             then Inl (SynchronousActivityError activityName idx)
             else Inr result)
      else Inl NotAFunction)"
  by pat_completeness auto
termination
  by (relation "measure (\<lambda>(n, a, ms, act, arg, idx, m). length ms - idx)") auto

declare executeMiddleware.simps [simp del]

text \<open>
  The class \<^verbatim>\<open>Middlewares\<close>: an object without prototype from activity names to arrays of
  middlewares.
\<close>

record ('a, 'v) Middlewares =
  middlewares :: "jsstring \<rightharpoonup> ('a, 'v) middleware list"

definition Middlewares_new :: "('a, 'v) Middlewares" where
  "Middlewares_new = \<lparr> middlewares = Map.empty \<rparr>"

definition register :: "('a, 'v) Middlewares \<Rightarrow> jsstring \<Rightarrow> ('a, 'v) middleware \<Rightarrow> ('a, 'v) Middlewares" where
  "register this event fn =
     (case middlewares this event of
        Some list \<Rightarrow> this\<lparr> middlewares := (middlewares this)(event \<mapsto> list @ [fn]) \<rparr>
      | None \<Rightarrow> this\<lparr> middlewares := (middlewares this)(event \<mapsto> [fn]) \<rparr>)"

definition run :: "('a, 'v) Middlewares \<Rightarrow> jsstring \<Rightarrow> 'a \<Rightarrow> ('a \<Rightarrow> 'v outcome) \<Rightarrow> 'v outcome" where
  "run this activityName arg activity =
     (case middlewares this activityName of
        None \<Rightarrow> activity arg
      | Some ms \<Rightarrow> executeMiddleware activityName True ms activity arg 0 (int (length ms) - 1))"

definition runSync :: "('a, 'v) Middlewares \<Rightarrow> jsstring \<Rightarrow> 'a \<Rightarrow> ('a \<Rightarrow> 'v outcome) \<Rightarrow> 'v outcome" where
  "runSync this activityName arg activity =
     (case middlewares this activityName of
        None \<Rightarrow> activity arg
      | Some ms \<Rightarrow> executeMiddleware activityName False ms activity arg 0 (int (length ms) - 1))"

subsection \<open>Sample middlewares\<close>

text \<open>A middleware that hands on what \<^verbatim>\<open>next()\<close> returns or throws.\<close>

definition passthrough :: "(nat, nat) middleware" where
  "passthrough arg = CallNext (\<lambda>r. case r of Inl e \<Rightarrow> Throw e | Inr v \<Rightarrow> Return v)"

text \<open>A middleware that returns a promise without calling \<^verbatim>\<open>next\<close>.\<close>

definition async_middleware :: "(nat, nat) middleware" where
  "async_middleware arg = Return (PromiseLike (Inr arg))"

text \<open>A middleware that throws.\<close>

definition throwing_middleware :: "(nat, nat) middleware" where
  "throwing_middleware arg = Throw (UserError 7)"

text \<open>A middleware that catches what \<^verbatim>\<open>next()\<close> throws and returns zero instead.\<close>

definition catching_middleware :: "(nat, nat) middleware" where
  "catching_middleware arg = CallNext (\<lambda>r. case r of Inl e \<Rightarrow> Return (Plain 0) | Inr v \<Rightarrow> Return v)"

text \<open>An activity that returns a promise, and one that returns a plain value.\<close>

definition async_activity :: "nat \<Rightarrow> nat outcome" where
  "async_activity arg = Inr (PromiseLike (Inr (arg + 1)))"

definition sync_activity :: "nat \<Rightarrow> nat outcome" where
  "sync_activity arg = Inr (Plain (arg + 1))"

text \<open>
  Two registrations for the activity \<^verbatim>\<open>act\<close>: in the first the outer middleware hands the
  inner error on, in the second it catches it.
\<close>

definition example_middlewares :: "(nat, nat) Middlewares" where
  "example_middlewares =
     register (register Middlewares_new (js ''act'') passthrough) (js ''act'') async_middleware"

definition swallowing_middlewares :: "(nat, nat) Middlewares" where
  "swallowing_middlewares =
     register (register Middlewares_new (js ''act'') catching_middleware) (js ''act'') async_middleware"

text \<open>No registration at all.\<close>

definition no_middlewares :: "(nat, nat) Middlewares" where
  "no_middlewares = Middlewares_new"

section \<open>The plan diagram\<close>

text \<open>\<^verbatim>\<open>`${n}`\<close> for a step or layer plan id: the decimal digits of the number.\<close>

fun digits :: "nat \<Rightarrow> jsstring" where
  "digits n = (if n < 10 then [48 + n] else digits (n div 10) @ [48 + n mod 10])"

declare digits.simps [simp del]

text \<open>
  \<^verbatim>\<open>squish\<close>: a string longer than \<^verbatim>\<open>start + end + 4\<close> keeps its first \<^verbatim>\<open>start\<close> and last
  \<^verbatim>\<open>end\<close> code units around three dots.
\<close>

definition squish :: "jsstring \<Rightarrow> nat \<Rightarrow> nat \<Rightarrow> jsstring" where
  "squish str start end' =
     (if length str > start + end' + 4
      then take start str @ js ''...'' @ drop (length str - end') str
      else str)"

text \<open>The test \<^verbatim>\<open>/^[a-z0-9 ]+$/i\<close>: not empty, and ASCII letters, digits and spaces only.\<close>

definition safe_char :: "nat \<Rightarrow> bool" where
  "safe_char c \<longleftrightarrow> (97 \<le> c \<and> c \<le> 122) \<or> (65 \<le> c \<and> c \<le> 90) \<or> (48 \<le> c \<and> c \<le> 57) \<or> c = 32"

definition already_safe :: "jsstring \<Rightarrow> bool" where
  "already_safe str \<longleftrightarrow> str \<noteq> [] \<and> list_all safe_char str"

text \<open>\<^verbatim>\<open>str.trim()\<close> removes the white space of \<^verbatim>\<open>\s\<close> at both ends.\<close>

definition trim :: "jsstring \<Rightarrow> jsstring" where
  "trim str = rev (dropWhile is_space (rev (dropWhile is_space str)))"

text \<open>
  \<^verbatim>\<open>.replace(/[#"<>]/g, ...)\<close>: the number sign (35), the quotation mark (34) and the
  angle brackets (60, 62) become the look-alikes U+A59B, U+201D, U+1438 and U+1433.
\<close>

definition lookalike :: "nat \<Rightarrow> nat" where
  "lookalike l =
     (if l = 35 then 42395 else if l = 34 then 8221 else if l = 60 then 5176
      else if l = 62 then 5171 else l)"

text \<open>\<^verbatim>\<open>.replace(/\r?\n/g, "<br />")\<close>; a carriage return on its own stays.\<close>

fun replace_newlines :: "jsstring \<Rightarrow> jsstring" where
  "replace_newlines [] = []"
| "replace_newlines [c] = (if c = 10 then js ''<br />'' else [c])"
| "replace_newlines (c # d # cs) =
     (if c = 13 \<and> d = 10 then js ''<br />'' @ replace_newlines cs
      else if c = 10 then js ''<br />'' @ replace_newlines (d # cs)
      else c # replace_newlines (d # cs))"

text \<open>
  \<^verbatim>\<open>mermaidEscape\<close>. \<^verbatim>\<open>stripAnsi\<close> is imported from \<^verbatim>\<open>stripAnsi.js\<close>, which is not among the
  sources, and is the parameter \<open>stripAnsi\<close>.
\<close>

definition mermaidEscape :: "(jsstring \<Rightarrow> jsstring) \<Rightarrow> jsstring \<Rightarrow> jsstring" where
  "mermaidEscape stripAnsi str =
     (if already_safe str then str
      else [34] @ replace_newlines (map lookalike (stripAnsi (trim str))) @ [34])"

text \<open>
  What \<^verbatim>\<open>printPlanGraph\<close> reads of a step: its id, the name of its class, the result of
  \<^verbatim>\<open>toStringMeta()\<close> (a string or \<^verbatim>\<open>null\<close>), whether it has an \<^verbatim>\<open>unbatchedExecute\<close>
  function, its polymorphic paths (a set, listed in insertion order), the steps it
  depends on, the id of its layer plan, whether it is an \<^verbatim>\<open>__ItemStep\<close>, and its flags.
\<close>

datatype step =
  Step (step_id: nat) (constructor_name: jsstring) (toStringMeta: "jsstring option")
    (has_unbatchedExecute: bool) (polymorphicPaths: "jsstring list") (dependencies: "step list")
    (layerPlan_id: nat) (is_ItemStep: bool) (isSyncAndSafe: bool) (hasSideEffects: bool)

text \<open>\<^verbatim>\<open>array.join("\n")\<close>; the line feed is the code unit 10.\<close>

fun join_lines :: "jsstring list \<Rightarrow> jsstring" where
  "join_lines [] = []"
| "join_lines [x] = x"
| "join_lines (x # y # ys) = x @ [10] @ join_lines (y # ys)"

text \<open>\<^verbatim>\<open>pp\<close>: nothing for the set that holds the empty path alone.\<close>

definition pp :: "jsstring list \<Rightarrow> jsstring" where
  "pp paths = (if length paths = 1 \<and> [] \<in> set paths then [] else join_lines paths)"

text \<open>\<^verbatim>\<open>plan.constructor.name.replace(/Step$/, "")\<close>.\<close>

definition planName :: "step \<Rightarrow> jsstring" where
  "planName plan =
     (let name = constructor_name plan in
      if length name \<ge> 4 \<and> drop (length name - 4) name = js ''Step''
      then take (length name - 4) name else name)"

definition planNode :: "step \<Rightarrow> jsstring" where
  "planNode plan = planName plan @ digits (step_id plan)"

text \<open>
  The meta of the label: stripped, and squished in a concise diagram when it is a
  non-empty string.
\<close>

definition plan_meta :: "bool \<Rightarrow> (jsstring \<Rightarrow> jsstring) \<Rightarrow> step \<Rightarrow> jsstring option" where
  "plan_meta concise stripAnsi plan =
     (let strippedMeta = map_option stripAnsi (toStringMeta plan) in
      case strippedMeta of
        Some m \<Rightarrow> if concise \<and> m \<noteq> [] then Some (squish m 8 8) else strippedMeta
      | None \<Rightarrow> strippedMeta)"

text \<open>
  The paths of the label are left out when the step has exactly one dependency and the
  paths of that dependency print the same.
\<close>

definition polyPathsIfDifferent :: "step \<Rightarrow> jsstring" where
  "polyPathsIfDifferent plan =
     (let polyPaths = pp (polymorphicPaths plan) in
      if length (dependencies plan) = 1 \<and>
         pp (polymorphicPaths (dependencies plan ! 0)) = polyPaths
      then [] else [10] @ polyPaths)"

text \<open>The label; the sign between the two ids is U+2208.\<close>

definition planString :: "bool \<Rightarrow> (jsstring \<Rightarrow> jsstring) \<Rightarrow> step \<Rightarrow> jsstring" where
  "planString concise stripAnsi plan =
     planName plan @ js ''['' @ digits (step_id plan) @ [8712] @ digits (layerPlan_id plan) @ js '']'' @
     (case plan_meta concise stripAnsi plan of
        Some meta \<Rightarrow> if meta \<noteq> [] then [10] @ js ''<'' @ meta @ js ''>'' else []
      | None \<Rightarrow> []) @
     polyPathsIfDifferent plan"

text \<open>The shape of the node; the reverse solidus is the code unit 92.\<close>

definition braces :: "step \<Rightarrow> jsstring \<times> jsstring" where
  "braces plan =
     (if is_ItemStep plan then (js ''[/'', [92] @ js '']'')
      else if isSyncAndSafe plan then
        (if has_unbatchedExecute plan then (js ''{{'', js ''}}'') else (js ''['', js '']''))
      else (js ''[['', js '']]''))"

definition planClass :: "step \<Rightarrow> jsstring" where
  "planClass plan =
     (if hasSideEffects plan then js ''sideeffectplan''
      else if is_ItemStep plan then js ''itemplan''
      else if has_unbatchedExecute plan \<and> \<not> isSyncAndSafe plan then js ''unbatchedplan''
      else js ''plan'')"

text \<open>The line that defines the node of a step.\<close>

definition node_line :: "bool \<Rightarrow> (jsstring \<Rightarrow> jsstring) \<Rightarrow> step \<Rightarrow> jsstring" where
  "node_line concise stripAnsi plan =
     js ''    '' @ planNode plan @ fst (braces plan) @
     mermaidEscape stripAnsi (planString concise stripAnsi plan) @
     snd (braces plan) @ js '':::'' @ planClass plan"

text \<open>
  The two variables that \<^verbatim>\<open>planId\<close> writes: the lines of the diagram and the map from step
  ids to node names.
\<close>

record printer_state =
  graph :: "jsstring list"
  planIdMap :: "nat \<rightharpoonup> jsstring"

text \<open>
  \<^verbatim>\<open>planId\<close>: the first call for an id pushes the node line and stores the node name; every
  call returns the stored name. \<^verbatim>\<open>!planIdMap[plan.id]\<close> holds for a missing entry and for an
  empty one.
\<close>

definition planId :: "bool \<Rightarrow> (jsstring \<Rightarrow> jsstring) \<Rightarrow> step \<Rightarrow> printer_state \<Rightarrow> jsstring \<times> printer_state" where
  "planId concise stripAnsi plan st =
     (if (case planIdMap st (step_id plan) of None \<Rightarrow> True | Some n \<Rightarrow> n = [])
      then
        (planNode plan,
         st\<lparr> planIdMap := (planIdMap st)(step_id plan \<mapsto> planNode plan),
             graph := graph st @ [node_line concise stripAnsi plan] \<rparr>)
      else (the (planIdMap st (step_id plan)), st))"

subsection \<open>What the properties assume of \<^verbatim>\<open>stripAnsi\<close> and of the names\<close>

text \<open>Text without the escape character U+001B and the control sequence introducer U+009B.\<close>

definition escape_free :: "jsstring \<Rightarrow> bool" where
  "escape_free s \<longleftrightarrow> 27 \<notin> set s \<and> 155 \<notin> set s"

text \<open>
  \<^verbatim>\<open>stripAnsi.js\<close> is not among the sources. An escape sequence begins with one of the two
  characters above, so what is assumed of \<^verbatim>\<open>stripAnsi\<close> is that it leaves the text in front of
  the first of them as it is, and the empty string empty.
\<close>

definition strips_escapes :: "(jsstring \<Rightarrow> jsstring) \<Rightarrow> bool" where
  "strips_escapes stripAnsi \<longleftrightarrow>
     stripAnsi [] = [] \<and> (\<forall>s t. escape_free s \<longrightarrow> stripAnsi (s @ t) = s @ stripAnsi t)"

text \<open>
  What is assumed of the name of a step's class; it holds for every JavaScript identifier:
  no white space, no escape character, no number sign, quotation mark or angle bracket, and
  no left square bracket (91).
\<close>

definition identifier_like :: "jsstring \<Rightarrow> bool" where
  "identifier_like name \<longleftrightarrow>
     list_all (\<lambda>c. \<not> is_space c \<and> c \<noteq> 27 \<and> c \<noteq> 155 \<and> c \<noteq> 34 \<and> c \<noteq> 35 \<and> c \<noteq> 60 \<and>
                   c \<noteq> 62 \<and> c \<noteq> 91) name"

text \<open>
  A polymorphic path such as \<^verbatim>\<open>>User>Post\<close>: not empty, without white space and escape
  characters.
\<close>

definition plain_path :: "jsstring \<Rightarrow> bool" where
  "plain_path p \<longleftrightarrow> p \<noteq> [] \<and> list_all (\<lambda>c. \<not> is_space c \<and> c \<noteq> 27 \<and> c \<noteq> 155) p"


subsection \<open>Sample steps\<close>

text \<open>
  A step with one dependency whose paths are the same, in two variants that differ in
  the paths only.
\<close>

definition user_dep :: step where
  "user_dep = Step 0 (js ''ConstantStep'') None False [js ''>User''] [] 0 False True False"

definition user_step :: step where
  "user_step = Step 1 (js ''AccessStep'') None False [js ''>User''] [user_dep] 0 False True False"

definition post_dep :: step where
  "post_dep = Step 0 (js ''ConstantStep'') None False [js ''>Post''] [] 0 False True False"

definition post_step :: step where
  "post_step = Step 1 (js ''AccessStep'') None False [js ''>Post''] [post_dep] 0 False True False"

text \<open>An item step.\<close>

definition item_step :: step where
  "item_step = Step 2 (js ''__ItemStep'') None False [[]] [user_dep] 1 True True False"

text \<open>A step without dependencies, with a meta and two paths, that is not safe.\<close>

definition select_step :: step where
  "select_step =
     Step 12 (js ''PgSelectStep'') (Some (js ''users'')) False [js ''>User'', js ''>Post'']
       [] 3 False False False"

text \<open>A safe step whose meta is longer than twenty code units, with the empty path alone.\<close>

definition query_step :: step where
  "query_step =
     Step 7 (js ''PgSelectStep'') (Some (js ''SELECT id, name FROM users'')) False [[]]
       [] 0 False True False"

text \<open>A step with an \<^verbatim>\<open>unbatchedExecute\<close> function that is not safe.\<close>

definition unbatched_step :: step where
  "unbatched_step = Step 5 (js ''LambdaStep'') None True [[]] [] 0 False False False"

definition empty_printer_state :: printer_state where
  "empty_printer_state = \<lparr> graph = [], planIdMap = Map.empty \<rparr>"

section \<open>The step graph, its execution order and its deduplication\<close>

text \<open>
  The plan graph, its builder, the executor and the deduplication pass are not among the
  sources. They are modelled here from the specification, for one bucket (the root
  bucket): a layer plan is only the tag that deduplication compares.
\<close>

text \<open>
  Modelled from the spec: the step of the data model, which is missing from the sources
  (``a stable integer id, unique within a plan'', ``an ordered list of references to
  other steps (by id)'', the owning layer plan, \<^verbatim>\<open>hasSideEffects\<close>), with the constructor
  identity and the structural-equality key that the deduplication pass groups by.
\<close>

record plan_step =
  stepId :: nat
  constructorId :: nat
  dependencyIds :: "nat list"
  equalityKey :: nat
  layerPlanId :: nat
  sideEffects :: bool

type_synonym step_graph = "plan_step list"

text \<open>
  Modelled from the spec: the contract of the missing builder \<^verbatim>\<open>addStep\<close> (``steps are added
  with their declared dependencies already resolved to existing step ids'', ``a step may
  not depend on a step created after it'', ids are unique). A graph is the list of its
  steps in creation order, and \<open>known\<close> holds the ids added before.
\<close>

fun built :: "nat set \<Rightarrow> step_graph \<Rightarrow> bool" where
  "built known [] = True"
| "built known (s # ss) =
     (stepId s \<notin> known \<and> set (dependencyIds s) \<subseteq> known \<and> built (insert (stepId s) known) ss)"

text \<open>
  Modelled from the spec: the valid (acyclic, finalized) step graph, the result of the
  missing builder started on no step.
\<close>

definition valid_graph :: "step_graph \<Rightarrow> bool" where
  "valid_graph g = built {} g"

text \<open>Modelled from the spec: the missing lookup of a step by its id.\<close>

definition lookup_step :: "step_graph \<Rightarrow> nat \<Rightarrow> plan_step option" where
  "lookup_step g i = find (\<lambda>s. stepId s = i) g"

text \<open>
  Modelled from the spec: the order requirement of the missing executor (``a step never
  executes before all of its dependencies have produced values''). The ids of \<open>xs\<close> can
  run one after the other when \<open>done\<close> have run: each is a step that has not run yet
  and whose dependencies have all run.
\<close>

fun runnable :: "step_graph \<Rightarrow> nat set \<Rightarrow> nat list \<Rightarrow> bool" where
  "runnable g done [] = True"
| "runnable g done (i # is) =
     (i \<notin> done \<and>
      (case lookup_step g i of None \<Rightarrow> False | Some s \<Rightarrow> set (dependencyIds s) \<subseteq> done) \<and>
      runnable g (insert i done) is)"

text \<open>
  Modelled from the spec: a topological execution order of the graph, for the missing
  executor: every step once, each after its dependencies.
\<close>

definition execution_order :: "step_graph \<Rightarrow> nat list \<Rightarrow> bool" where
  "execution_order g xs \<longleftrightarrow> runnable g {} xs \<and> set xs = stepId ` set g"

text \<open>Modelled from the spec: the dependency edge of the missing plan graph.\<close>

definition depends_on :: "step_graph \<Rightarrow> nat \<Rightarrow> nat \<Rightarrow> bool" where
  "depends_on g a b \<longleftrightarrow>
     (case lookup_step g a of None \<Rightarrow> False | Some s \<Rightarrow> b \<in> set (dependencyIds s))"

text \<open>
  Modelled from the spec: mutually independent steps of the missing plan graph (``steps
  with no dependency relationship''): neither reaches the other along dependency edges.
\<close>

definition independent :: "step_graph \<Rightarrow> nat \<Rightarrow> nat \<Rightarrow> bool" where
  "independent g a b \<longleftrightarrow> \<not> (depends_on g)\<^sup>+\<^sup>+ a b \<and> \<not> (depends_on g)\<^sup>+\<^sup>+ b a"

text \<open>
  Modelled from the spec: the reordering of mutually independent steps, for the orders of
  the missing executor: two independent steps next to each other change places.
\<close>

inductive reorder_step :: "step_graph \<Rightarrow> nat list \<Rightarrow> nat list \<Rightarrow> bool" for g where
  swap: "independent g a b \<Longrightarrow> reorder_step g (us @ a # b # vs) (us @ b # a # vs)"

text \<open>
  Modelled from the spec: the fatal internal errors of the missing executor: the batched
  operation of a step is asked for while the column of one of its dependencies is not
  populated, or an id names no step.
\<close>

datatype exec_error =
    ColumnNotPopulated nat nat
  | UnknownStep nat

text \<open>
  Modelled from the spec: the bucket of the missing executor, ``a runtime columnar
  table'': one column (a list of values, one per row) for every step that has run. A
  column is written once and as a whole.
\<close>

type_synonym 'v bucket = "nat \<rightharpoonup> 'v list"

text \<open>
  Modelled from the spec: the missing executor's first move on a step (``collect, for
  each dependency, the aligned per-row value list from the bucket'').
\<close>

fun collect :: "'v bucket \<Rightarrow> nat \<Rightarrow> nat list \<Rightarrow> exec_error + 'v list list" where
  "collect b sid [] = Inr []"
| "collect b sid (d # ds) =
     (case b d of
        None \<Rightarrow> Inl (ColumnNotPopulated sid d)
      | Some col \<Rightarrow> (case collect b sid ds of Inl e \<Rightarrow> Inl e | Inr cols \<Rightarrow> Inr (col # cols)))"

text \<open>
  Modelled from the spec: the missing executor's run of one step over the bucket (``invoke
  the step's batched operation; write the aligned result list into a new column''). The
  batched operation of a step is given by its constructor and its structural-equality
  key: \<open>batched\<close> maps the two to the operation.
\<close>

definition run_step ::
  "(nat \<Rightarrow> nat \<Rightarrow> 'v list list \<Rightarrow> 'v list) \<Rightarrow> plan_step \<Rightarrow> 'v bucket \<Rightarrow> exec_error + 'v bucket" where
  "run_step batched s b =
     (case collect b (stepId s) (dependencyIds s) of
        Inl e \<Rightarrow> Inl e
      | Inr cols \<Rightarrow> Inr (b(stepId s \<mapsto> batched (constructorId s) (equalityKey s) cols)))"

text \<open>Modelled from the spec: the missing executor, running the steps in a given order.\<close>

fun run_order ::
  "(nat \<Rightarrow> nat \<Rightarrow> 'v list list \<Rightarrow> 'v list) \<Rightarrow> step_graph \<Rightarrow> nat list \<Rightarrow> 'v bucket \<Rightarrow> exec_error + 'v bucket" where
  "run_order batched g [] b = Inr b"
| "run_order batched g (i # is) b =
     (case lookup_step g i of
        None \<Rightarrow> Inl (UnknownStep i)
      | Some s \<Rightarrow>
          (case run_step batched s b of
             Inl e \<Rightarrow> Inl e
           | Inr b' \<Rightarrow> run_order batched g is b'))"

text \<open>
  Modelled from the spec: the state of the missing deduplication pass: the steps kept so
  far, and for every step removed the survivor that its dependents point at.
\<close>

record dedup_state =
  survivors :: step_graph
  replacements :: "nat \<rightharpoonup> nat"

text \<open>
  Modelled from the spec: the rewriting of a dependent of the missing deduplication pass
  (``every dependent rewritten to point at the survivor'').
\<close>

definition resolve :: "(nat \<rightharpoonup> nat) \<Rightarrow> nat \<Rightarrow> nat" where
  "resolve r d = (case r d of None \<Rightarrow> d | Some d' \<Rightarrow> d')"

text \<open>
  Modelled from the spec: the group of the missing deduplication pass (``groups steps by
  (constructor identity, dependency id sequence, and a step-defined structural-equality
  key)'', ``interchangeable only if they are in the same layer plan ... and have
  identical \<^verbatim>\<open>hasSideEffects = false\<close>''). Copies injected from an ancestor are not
  modelled.
\<close>

definition interchangeable :: "plan_step \<Rightarrow> plan_step \<Rightarrow> bool" where
  "interchangeable a b \<longleftrightarrow>
     constructorId a = constructorId b \<and> dependencyIds a = dependencyIds b \<and>
     equalityKey a = equalityKey b \<and> layerPlanId a = layerPlanId b \<and>
     \<not> sideEffects a \<and> \<not> sideEffects b"

text \<open>
  Modelled from the spec: one step of the missing deduplication pass. The dependencies of
  the step are rewritten first; when a step kept before is in its group, the step is
  removed and the first such step is its survivor; otherwise the step is kept.
\<close>

definition deduplicate_step :: "dedup_state \<Rightarrow> plan_step \<Rightarrow> dedup_state" where
  "deduplicate_step st s =
     (let s' = s\<lparr> dependencyIds := map (resolve (replacements st)) (dependencyIds s) \<rparr> in
      case find (\<lambda>k. interchangeable k s') (survivors st) of
        Some k \<Rightarrow> st\<lparr> replacements := (replacements st)(stepId s \<mapsto> stepId k) \<rparr>
      | None \<Rightarrow> st\<lparr> survivors := survivors st @ [s'] \<rparr>)"

text \<open>
  Modelled from the spec: the missing deduplication pass, over the steps in creation
  order (dependencies first), so that the dependencies of a step are rewritten before
  the step is grouped.
\<close>

definition deduplicate_pass :: "step_graph \<Rightarrow> dedup_state" where
  "deduplicate_pass g = foldl deduplicate_step \<lparr> survivors = [], replacements = Map.empty \<rparr> g"

text \<open>Modelled from the spec: the graph that the missing deduplication pass leaves.\<close>

definition deduplicate :: "step_graph \<Rightarrow> step_graph" where
  "deduplicate g = survivors (deduplicate_pass g)"

subsection \<open>Notions of the proofs\<close>

text \<open>A set of ids that holds the dependencies of its members.\<close>

definition closed :: "step_graph \<Rightarrow> nat set \<Rightarrow> bool" where
  "closed g D \<longleftrightarrow> (\<forall>a \<in> D. \<forall>b. depends_on g a b \<longrightarrow> b \<in> D)"

text \<open>A list of steps without two steps of one group.\<close>

fun irredundant :: "step_graph \<Rightarrow> bool" where
  "irredundant [] = True"
| "irredundant (s # ss) = ((\<forall>t \<in> set ss. \<not> interchangeable s t) \<and> irredundant ss)"

text \<open>
  A bucket that holds, for every step of the graph, the column that the batched
  operation of the step makes of the columns of its dependencies.
\<close>

definition solution ::
  "(nat \<Rightarrow> nat \<Rightarrow> 'v list list \<Rightarrow> 'v list) \<Rightarrow> step_graph \<Rightarrow> 'v bucket \<Rightarrow> bool" where
  "solution batched g b \<longleftrightarrow>
     dom b = stepId ` set g \<and>
     (\<forall>s \<in> set g. b (stepId s) =
        Some (batched (constructorId s) (equalityKey s) (map (\<lambda>d. the (b d)) (dependencyIds s))))"

subsection \<open>Sample graphs\<close>

text \<open>
  A diamond: step 0 has no dependency, the steps 1 and 2 depend on it, and step 3
  depends on both.
\<close>

definition diamond :: step_graph where
  "diamond =
     [\<lparr> stepId = 0, constructorId = 1, dependencyIds = [], equalityKey = 7, layerPlanId = 0, sideEffects = False \<rparr>,
      \<lparr> stepId = 1, constructorId = 2, dependencyIds = [0], equalityKey = 0, layerPlanId = 0, sideEffects = False \<rparr>,
      \<lparr> stepId = 2, constructorId = 3, dependencyIds = [0], equalityKey = 0, layerPlanId = 0, sideEffects = False \<rparr>,
      \<lparr> stepId = 3, constructorId = 4, dependencyIds = [1, 2], equalityKey = 0, layerPlanId = 0, sideEffects = False \<rparr>]"

text \<open>
  A graph with duplicates: the steps 0 and 1 are of one group; the steps 2 and 3 are of
  one group once the dependency of step 3 points at step 0; step 4 depends on both; the
  steps 5 and 6 are alike but have side effects.
\<close>

definition duplicated :: step_graph where
  "duplicated =
     [\<lparr> stepId = 0, constructorId = 1, dependencyIds = [], equalityKey = 7, layerPlanId = 0, sideEffects = False \<rparr>,
      \<lparr> stepId = 1, constructorId = 1, dependencyIds = [], equalityKey = 7, layerPlanId = 0, sideEffects = False \<rparr>,
      \<lparr> stepId = 2, constructorId = 2, dependencyIds = [0], equalityKey = 0, layerPlanId = 0, sideEffects = False \<rparr>,
      \<lparr> stepId = 3, constructorId = 2, dependencyIds = [1], equalityKey = 0, layerPlanId = 0, sideEffects = False \<rparr>,
      \<lparr> stepId = 4, constructorId = 4, dependencyIds = [2, 3], equalityKey = 0, layerPlanId = 0, sideEffects = False \<rparr>,
      \<lparr> stepId = 5, constructorId = 5, dependencyIds = [4], equalityKey = 0, layerPlanId = 0, sideEffects = True \<rparr>,
      \<lparr> stepId = 6, constructorId = 5, dependencyIds = [4], equalityKey = 0, layerPlanId = 0, sideEffects = True \<rparr>]"

text \<open>
  Batched operations over two rows: a step without dependencies yields its key in every
  row, any other step adds its constructor to the sum of the row.
\<close>

definition example_batched :: "nat \<Rightarrow> nat \<Rightarrow> nat list list \<Rightarrow> nat list" where
  "example_batched c k cols =
     (if cols = [] then [k, k] else foldr (map2 (+)) cols [c, c])"

section \<open>Properties of PgPolymorphicPlan\<close>

subsection \<open>Facts about the row loop\<close>

lemma map_rows_Inr_iff:
  "map_rows f xs = Inr ys \<longleftrightarrow> map f xs = map Inr ys"
proof (induction xs arbitrary: ys)
  case Nil
  show ?case by auto
next
  case (Cons x xs)
  show ?case
  proof (cases "f x")
    case (Inl e)
    then show ?thesis by (cases ys) auto
  next
    case (Inr y)
    show ?thesis
    proof (cases "map_rows f xs")
      case (Inl e)
      have "map f xs \<noteq> map Inr zs" for zs
        using Cons.IH [of zs] Inl by simp
      with Inl Inr show ?thesis by (cases ys) auto
    next
      case (Inr zs)
      with Cons.IH [of zs] have "map f xs = map Inr zs" by simp
      with Inr \<open>f x = Inr y\<close> show ?thesis
        by (cases ys) (auto simp: inj_map_eq_map [OF inj_Inr])
    qed
  qed
qed

lemma map_rows_length:
  "map_rows f xs = Inr ys \<Longrightarrow> length ys = length xs"
  using map_rows_Inr_iff [of f xs ys] by (metis length_map)

lemma map_rows_nth:
  "map_rows f xs = Inr ys \<Longrightarrow> i < length xs \<Longrightarrow> f (xs ! i) = Inr (ys ! i)"
  using map_rows_Inr_iff [of f xs ys] by (metis length_map nth_map)

lemma map_rows_Inl_iff:
  "(\<exists>e. map_rows f xs = Inl e) \<longleftrightarrow> (\<exists>x \<in> set xs. \<exists>e. f x = Inl e)"
  by (induction xs) (auto split: sum.splits)

lemma map_rows_first_error:
  "map_rows f xs = Inl e \<Longrightarrow>
     \<exists>i < length xs. f (xs ! i) = Inl e \<and> (\<forall>j < i. \<exists>y. f (xs ! j) = Inr y)"
proof (induction xs)
  case Nil
  then show ?case by simp
next
  case (Cons x xs)
  show ?case
  proof (cases "f x")
    case (Inl e')
    with Cons.prems have "f ((x # xs) ! 0) = Inl e" by simp
    then show ?thesis by (intro exI [of _ 0]) simp
  next
    case (Inr y)
    with Cons.prems have "map_rows f xs = Inl e" by (simp split: sum.splits)
    from Cons.IH [OF this] obtain i where i: "i < length xs" "f (xs ! i) = Inl e"
      "\<forall>j < i. \<exists>y. f (xs ! j) = Inr y" by blast
    have "\<forall>j < Suc i. \<exists>y'. f ((x # xs) ! j) = Inr y'"
    proof (intro allI impI)
      fix j assume "j < Suc i"
      then show "\<exists>y'. f ((x # xs) ! j) = Inr y'"
        using Inr i(3) by (cases j) auto
    qed
    with i(1,2) show ?thesis by (intro exI [of _ "Suc i"]) simp
  qed
qed

lemma find_type_new_no_TypeError:
  "set ts \<subseteq> fst ` set pts \<Longrightarrow> find_type pts s ts \<noteq> Inl e"
proof (induction ts)
  case Nil
  show ?case by simp
next
  case (Cons t ts)
  from Cons.prems have "t \<in> fst ` set pts" by simp
  then obtain m where "map_of pts t = Some m"
    by (metis map_of_eq_None_iff not_Some_eq)
  with Cons show ?case by simp
qed

lemma find_type_Some:
  "find_type pts s ts = Inr (Some t) \<Longrightarrow>
     \<exists>ts1 ts2 m. ts = ts1 @ t # ts2 \<and> map_of pts t = Some m \<and> m s \<and>
       (\<forall>u \<in> set ts1. \<exists>m'. map_of pts u = Some m' \<and> \<not> m' s)"
proof (induction ts)
  case Nil
  then show ?case by simp
next
  case (Cons u ts)
  from Cons.prems obtain m where m: "map_of pts u = Some m"
    by (auto split: option.splits)
  show ?case
  proof (cases "m s")
    case True
    with Cons.prems m have "t = u" by simp
    with m True have "u # ts = [] @ t # ts \<and> map_of pts t = Some m \<and> m s \<and>
        (\<forall>u \<in> set []. \<exists>m'. map_of pts u = Some m' \<and> \<not> m' s)" by simp
    then show ?thesis by blast
  next
    case False
    with Cons.prems m have "find_type pts s ts = Inr (Some t)" by simp
    from Cons.IH [OF this] obtain ts1 ts2 m' where
      "ts = ts1 @ t # ts2" "map_of pts t = Some m'" "m' s"
      "\<forall>u \<in> set ts1. \<exists>m'. map_of pts u = Some m' \<and> \<not> m' s" by blast
    with m False have "u # ts = (u # ts1) @ t # ts2 \<and> map_of pts t = Some m' \<and> m' s \<and>
        (\<forall>u \<in> set (u # ts1). \<exists>m'. map_of pts u = Some m' \<and> \<not> m' s)" by simp
    then show ?thesis by blast
  qed
qed

lemma find_type_None:
  "find_type pts s ts = Inr None \<Longrightarrow> \<forall>u \<in> set ts. \<exists>m. map_of pts u = Some m \<and> \<not> m s"
  by (induction ts) (auto split: option.splits if_splits)

lemma find_type_rejected:
  "\<forall>(t, m) \<in> set pts. \<not> m s \<Longrightarrow> find_type pts s ts \<noteq> Inr (Some t)"
proof
  assume rej: "\<forall>(t, m) \<in> set pts. \<not> m s" and "find_type pts s ts = Inr (Some t)"
  from find_type_Some [OF this(2)] obtain m where "map_of pts t = Some m" "m s" by blast
  then have "(t, m) \<in> set pts" by (simp add: map_of_SomeD)
  with rej \<open>m s\<close> show False by auto
qed

lemma execute_row_new_error:
  assumes "execute_row (PgPolymorphicPlan_new ii si pts) wrap s = Inl e"
  shows "e = CouldNotDetermineType \<and> truthy s"
proof -
  have "find_type pts s (map fst pts) \<noteq> Inl e'" for e'
    by (rule find_type_new_no_TypeError) simp
  with assms show ?thesis
    by (auto simp: execute_row_def getTypeNameFromSpecifier_def PgPolymorphicPlan_new_def
        split: if_splits sum.splits option.splits)
qed

subsection \<open>Evaluating the samples\<close>

lemmas polymorphic_eval =
  execute_def execute_row_def getTypeNameFromSpecifier_def PgPolymorphicPlan_new_def
  example_plan_def example_types_def js_def

subsection \<open>Per-row isolation\<close>

text \<open>
  C1, as stated: a row whose specifier matches no type yields an error for that row only,
  and every other row of the batch still produces its value. In the five-row sample the
  rows 0, 1, 3 and 4 succeed on their own, yet the call as a whole throws and returns no
  row at all.
\<close>

theorem execute_isolation_counterexample:
  "execute example_plan (\<lambda>t. t) example_batch = Inl CouldNotDetermineType \<and>
   execute_row example_plan (\<lambda>t. t) (example_batch ! 1 ! 0) = Inr (Some (js ''A'')) \<and>
   execute_row example_plan (\<lambda>t. t) (example_batch ! 1 ! 1) = Inr (Some (js ''B'')) \<and>
   execute_row example_plan (\<lambda>t. t) (example_batch ! 1 ! 2) = Inl CouldNotDetermineType \<and>
   execute_row example_plan (\<lambda>t. t) (example_batch ! 1 ! 3) = Inr None \<and>
   execute_row example_plan (\<lambda>t. t) (example_batch ! 1 ! 4) = Inr (Some (js ''B''))"
  by (simp add: polymorphic_eval example_batch_def)

text \<open>
  C1, amended: \<^verbatim>\<open>execute\<close> is all or nothing. It returns a list exactly when the callback
  succeeds on every row, and the list then holds each row's own value; otherwise the
  error of the first failing row is the outcome of the whole call. For a plan made by the
  constructor, one truthy specifier accepted by no type is enough for the call to throw.
\<close>

theorem execute_all_or_nothing:
  assumes "typeSpecifierPlanId p < length values"
  shows "((\<exists>rs. execute p wrap values = Inr rs) \<longleftrightarrow>
            (\<forall>s \<in> set (values ! typeSpecifierPlanId p). \<exists>r. execute_row p wrap s = Inr r)) \<and>
         (\<forall>rs. execute p wrap values = Inr rs \<longrightarrow>
            map (execute_row p wrap) (values ! typeSpecifierPlanId p) = map Inr rs) \<and>
         (\<forall>e. execute p wrap values = Inl e \<longrightarrow>
            (\<exists>i < length (values ! typeSpecifierPlanId p).
               execute_row p wrap (values ! typeSpecifierPlanId p ! i) = Inl e \<and>
               (\<forall>j < i. \<exists>r. execute_row p wrap (values ! typeSpecifierPlanId p ! j) = Inr r))) \<and>
         (p = PgPolymorphicPlan_new ii (typeSpecifierPlanId p) pts \<and>
          (\<exists>s \<in> set (values ! typeSpecifierPlanId p). truthy s \<and> (\<forall>(t, m) \<in> set pts. \<not> m s)) \<longrightarrow>
            (\<exists>e. execute p wrap values = Inl e))"
proof -
  let ?rows = "values ! typeSpecifierPlanId p"
  let ?f = "execute_row p wrap"
  have ex: "execute p wrap values = map_rows ?f ?rows"
    using assms by (simp add: execute_def)
  have all_iff: "(\<exists>rs. map_rows ?f ?rows = Inr rs) \<longleftrightarrow> (\<forall>s \<in> set ?rows. \<exists>r. ?f s = Inr r)"
  proof -
    have "(\<exists>rs. map_rows ?f ?rows = Inr rs) \<longleftrightarrow> \<not> (\<exists>e. map_rows ?f ?rows = Inl e)"
      by (cases "map_rows ?f ?rows") auto
    also have "\<dots> \<longleftrightarrow> \<not> (\<exists>s \<in> set ?rows. \<exists>e. ?f s = Inl e)"
      by (simp only: map_rows_Inl_iff)
    also have "\<dots> \<longleftrightarrow> (\<forall>s \<in> set ?rows. \<exists>r. ?f s = Inr r)"
      by (metis sum.exhaust sum.distinct(1))
    finally show ?thesis .
  qed
  have values_eq: "\<forall>rs. execute p wrap values = Inr rs \<longrightarrow> map ?f ?rows = map Inr rs"
    by (simp add: ex map_rows_Inr_iff)
  have first: "\<forall>e. execute p wrap values = Inl e \<longrightarrow>
      (\<exists>i < length ?rows. ?f (?rows ! i) = Inl e \<and> (\<forall>j < i. \<exists>r. ?f (?rows ! j) = Inr r))"
    using map_rows_first_error [of ?f ?rows] by (simp add: ex)
  have unmatched: "\<exists>e. execute p wrap values = Inl e"
    if new: "p = PgPolymorphicPlan_new ii (typeSpecifierPlanId p) pts"
      and bad: "\<exists>s \<in> set ?rows. truthy s \<and> (\<forall>(t, m) \<in> set pts. \<not> m s)"
  proof -
    from bad obtain s where s: "s \<in> set ?rows" "truthy s" "\<forall>(t, m) \<in> set pts. \<not> m s"
      by blast
    have sel: "types p = map fst pts" "possibleTypes p = pts"
      by (subst new, simp add: PgPolymorphicPlan_new_def)+
    have "find_type pts s (map fst pts) \<noteq> Inr (Some t)" for t
      by (rule find_type_rejected [OF s(3)])
    then have "\<exists>e. getTypeNameFromSpecifier p s = Inl e"
      by (auto simp: getTypeNameFromSpecifier_def sel split: sum.splits option.splits)
    with s(2) have "\<exists>e. ?f s = Inl e"
      by (auto simp: execute_row_def)
    with s(1) have "\<exists>e. map_rows ?f ?rows = Inl e"
      by (subst map_rows_Inl_iff) blast
    then show ?thesis by (simp add: ex)
  qed
  from all_iff values_eq first unmatched show ?thesis
    by (simp only: ex) blast
qed

theorem execute_all_or_nothing_witness:
  "typeSpecifierPlanId example_plan < length good_batch \<and>
   (\<exists>rs. execute example_plan (\<lambda>t. t) good_batch = Inr rs) \<and>
   typeSpecifierPlanId example_plan < length example_batch \<and>
   (\<exists>e. execute example_plan (\<lambda>t. t) example_batch = Inl e)"
proof -
  have h1: "typeSpecifierPlanId example_plan < length good_batch"
    by (simp add: example_plan_def PgPolymorphicPlan_new_def good_batch_def)
  have rows1: "\<forall>s \<in> set (good_batch ! typeSpecifierPlanId example_plan).
      \<exists>r. execute_row example_plan (\<lambda>t. t) s = Inr r"
    by (simp add: polymorphic_eval good_batch_def)
  have h2: "typeSpecifierPlanId example_plan < length example_batch"
    by (simp add: example_plan_def PgPolymorphicPlan_new_def example_batch_def)
  have new: "example_plan = PgPolymorphicPlan_new 0 (typeSpecifierPlanId example_plan) example_types"
    by (simp add: example_plan_def PgPolymorphicPlan_new_def)
  have bad: "\<exists>s \<in> set (example_batch ! typeSpecifierPlanId example_plan).
      truthy s \<and> (\<forall>(t, m) \<in> set example_types. \<not> m s)"
    by (simp add: polymorphic_eval example_batch_def)
  from execute_all_or_nothing [OF h1, of "\<lambda>t. t"] rows1
  have "\<exists>rs. execute example_plan (\<lambda>t. t) good_batch = Inr rs" by blast
  moreover from execute_all_or_nothing [OF h2, of "\<lambda>t. t" 0 example_types] new bad
  have "\<exists>e. execute example_plan (\<lambda>t. t) example_batch = Inl e" by blast
  ultimately show ?thesis using h1 h2 by blast
qed

subsection \<open>One result per row\<close>

text \<open>
  C2, as stated: \<^verbatim>\<open>execute\<close> returns exactly one result per row of the values list of
  its type-specifier dependency. On a batch of one row that no type accepts it returns no
  list: it throws.
\<close>

theorem execute_length_counterexample:
  "length (unmatched_batch ! typeSpecifierPlanId example_plan) = 1 \<and>
   execute example_plan (\<lambda>t. t) unmatched_batch = Inl CouldNotDetermineType"
  by (simp add: polymorphic_eval unmatched_batch_def)

text \<open>
  C2, amended: whenever \<^verbatim>\<open>execute\<close> returns, the list it returns has exactly one result
  per row of the values list of its type-specifier dependency.
\<close>

theorem execute_length:
  assumes "execute p wrap values = Inr rs"
  shows "typeSpecifierPlanId p < length values \<and>
         length rs = length (values ! typeSpecifierPlanId p)"
proof -
  from assms have inr: "typeSpecifierPlanId p < length values"
    by (auto simp: execute_def split: if_splits)
  with assms have "map_rows (execute_row p wrap) (values ! typeSpecifierPlanId p) = Inr rs"
    by (simp add: execute_def)
  from map_rows_length [OF this] inr show ?thesis by simp
qed

theorem execute_length_witness:
  "execute example_plan (\<lambda>t. t) good_batch = Inr [Some (js ''A''), None, Some (js ''B'')] \<and>
   typeSpecifierPlanId example_plan < length good_batch \<and>
   length [Some (js ''A''), None, Some (js ''B'')] =
     length (good_batch ! typeSpecifierPlanId example_plan)"
proof -
  have h: "execute example_plan (\<lambda>t. t) good_batch = Inr [Some (js ''A''), None, Some (js ''B'')]"
    by (simp add: polymorphic_eval good_batch_def)
  from execute_length [OF h] h show ?thesis by blast
qed

subsection \<open>Discriminant resolution\<close>

text \<open>
  C3, as stated: for every row with a non-null specifier, a specifier accepted by no type
  produces an error. The number 0 is not \<^verbatim>\<open>null\<close> and no type of the sample accepts it, yet
  the call returns and the row is \<^verbatim>\<open>null\<close>: the callback tests whether the specifier is
  truthy, not whether it is \<^verbatim>\<open>null\<close>.
\<close>

theorem execute_nonnull_falsy_counterexample:
  "JNum 0 \<noteq> JNull \<and>
   list_all (\<lambda>(t, m). \<not> m (JNum 0)) example_types \<and>
   zero_batch ! typeSpecifierPlanId example_plan = [JNum 0] \<and>
   execute example_plan (\<lambda>t. t) zero_batch = Inr [None]"
  by (simp add: polymorphic_eval zero_batch_def)

text \<open>
  C3, amended: for a plan made by the constructor, \<^verbatim>\<open>getTypeNameFromSpecifier\<close> returns a type
  name \<open>T\<close> only if the predicate of \<open>T\<close> accepts the specifier and the predicates of all
  types listed before \<open>T\<close> (in the order of \<^verbatim>\<open>Object.keys(possibleTypes)\<close>) reject it, and a
  specifier that every predicate rejects gives the error. In a batch that \<^verbatim>\<open>execute\<close>
  returns, the row of a truthy specifier holds the wrapped name of the first type that
  accepts it, and the row of a falsy specifier, \<^verbatim>\<open>null\<close> or not, holds \<^verbatim>\<open>null\<close>; a batch with a
  truthy specifier that every predicate rejects makes the call throw the error.
\<close>

theorem getTypeNameFromSpecifier_first_match:
  "(getTypeNameFromSpecifier (PgPolymorphicPlan_new ii si pts) s = Inr T \<longrightarrow>
      T \<noteq> [] \<and>
      (\<exists>ts1 ts2 m. map fst pts = ts1 @ T # ts2 \<and> map_of pts T = Some m \<and> m s \<and>
         (\<forall>u \<in> set ts1. \<exists>m'. map_of pts u = Some m' \<and> \<not> m' s))) \<and>
   ((\<forall>(t, m) \<in> set pts. \<not> m s) \<longrightarrow>
      getTypeNameFromSpecifier (PgPolymorphicPlan_new ii si pts) s = Inl CouldNotDetermineType) \<and>
   (execute (PgPolymorphicPlan_new ii si pts) wrap values = Inr rs \<and>
      i < length (values ! si) \<and> truthy (values ! si ! i) \<longrightarrow>
      (\<exists>T ts1 ts2 m. rs ! i = Some (wrap T) \<and> map fst pts = ts1 @ T # ts2 \<and>
         map_of pts T = Some m \<and> m (values ! si ! i) \<and>
         (\<forall>u \<in> set ts1. \<exists>m'. map_of pts u = Some m' \<and> \<not> m' (values ! si ! i)))) \<and>
   (si < length values \<and>
      (\<exists>s \<in> set (values ! si). truthy s \<and> (\<forall>(t, m) \<in> set pts. \<not> m s)) \<longrightarrow>
      execute (PgPolymorphicPlan_new ii si pts) wrap values = Inl CouldNotDetermineType) \<and>
   (execute (PgPolymorphicPlan_new ii si pts) wrap values = Inr rs \<and>
      i < length (values ! si) \<and> \<not> truthy (values ! si ! i) \<longrightarrow> rs ! i = None)"
proof (intro conjI impI)
  let ?p = "PgPolymorphicPlan_new ii si pts"
  have sel: "types ?p = map fst pts" "possibleTypes ?p = pts" "typeSpecifierPlanId ?p = si"
    by (simp_all add: PgPolymorphicPlan_new_def)
  have name: "\<exists>ts1 ts2 m. map fst pts = ts1 @ T # ts2 \<and> map_of pts T = Some m \<and> m s \<and>
         (\<forall>u \<in> set ts1. \<exists>m'. map_of pts u = Some m' \<and> \<not> m' s)" "T \<noteq> []"
    if "getTypeNameFromSpecifier ?p s = Inr T" for s T
  proof -
    from that have ft: "find_type pts s (map fst pts) = Inr (Some T)" and ne: "T \<noteq> []"
      by (auto simp: getTypeNameFromSpecifier_def sel split: sum.splits option.splits if_splits)
    from find_type_Some [OF ft]
    show "\<exists>ts1 ts2 m. map fst pts = ts1 @ T # ts2 \<and> map_of pts T = Some m \<and> m s \<and>
         (\<forall>u \<in> set ts1. \<exists>m'. map_of pts u = Some m' \<and> \<not> m' s)" .
    show "T \<noteq> []" by (rule ne)
  qed
  have rejected: "getTypeNameFromSpecifier ?p s = Inl CouldNotDetermineType"
    if rej: "\<forall>(t, m) \<in> set pts. \<not> m s" for s
  proof -
    have "find_type pts s (map fst pts) \<noteq> Inl e" for e
      by (rule find_type_new_no_TypeError) simp
    moreover have "find_type pts s (map fst pts) \<noteq> Inr (Some t)" for t
      by (rule find_type_rejected [OF rej])
    ultimately have "find_type pts s (map fst pts) = Inr None"
      by (metis sum.exhaust option.exhaust)
    then show ?thesis by (simp add: getTypeNameFromSpecifier_def sel)
  qed
  {
    assume "getTypeNameFromSpecifier ?p s = Inr T"
    from name [OF this] show "T \<noteq> []"
      and "\<exists>ts1 ts2 m. map fst pts = ts1 @ T # ts2 \<and> map_of pts T = Some m \<and> m s \<and>
         (\<forall>u \<in> set ts1. \<exists>m'. map_of pts u = Some m' \<and> \<not> m' s)" by blast+
  }
  {
    assume "\<forall>(t, m) \<in> set pts. \<not> m s"
    then show "getTypeNameFromSpecifier ?p s = Inl CouldNotDetermineType" by (rule rejected)
  }
  {
    assume a: "execute ?p wrap values = Inr rs \<and> i < length (values ! si) \<and>
      truthy (values ! si ! i)"
    then have mr: "map_rows (execute_row ?p wrap) (values ! si) = Inr rs"
      by (auto simp: execute_def sel split: if_splits)
    from map_rows_nth [OF mr] a have "execute_row ?p wrap (values ! si ! i) = Inr (rs ! i)"
      by simp
    with a obtain T where T: "getTypeNameFromSpecifier ?p (values ! si ! i) = Inr T"
      "rs ! i = Some (wrap T)"
      by (auto simp: execute_row_def split: sum.splits)
    from name(1) [OF T(1)] T(2)
    show "\<exists>T ts1 ts2 m. rs ! i = Some (wrap T) \<and> map fst pts = ts1 @ T # ts2 \<and>
         map_of pts T = Some m \<and> m (values ! si ! i) \<and>
         (\<forall>u \<in> set ts1. \<exists>m'. map_of pts u = Some m' \<and> \<not> m' (values ! si ! i))"
      by blast
  }
  {
    assume a: "si < length values \<and>
      (\<exists>s \<in> set (values ! si). truthy s \<and> (\<forall>(t, m) \<in> set pts. \<not> m s))"
    then obtain s where s: "s \<in> set (values ! si)" "truthy s" "\<forall>(t, m) \<in> set pts. \<not> m s"
      by blast
    from a have ex: "execute ?p wrap values = map_rows (execute_row ?p wrap) (values ! si)"
      by (simp add: execute_def sel)
    from rejected [OF s(3)] s(2) have "execute_row ?p wrap s = Inl CouldNotDetermineType"
      by (simp add: execute_row_def)
    with s(1) have "\<exists>e. map_rows (execute_row ?p wrap) (values ! si) = Inl e"
      by (subst map_rows_Inl_iff) blast
    then obtain e where e: "map_rows (execute_row ?p wrap) (values ! si) = Inl e" by blast
    from map_rows_first_error [OF e] obtain j where
      "execute_row ?p wrap (values ! si ! j) = Inl e" by blast
    from execute_row_new_error [OF this] e ex
    show "execute ?p wrap values = Inl CouldNotDetermineType" by simp
  }
  {
    assume a: "execute ?p wrap values = Inr rs \<and> i < length (values ! si) \<and>
      \<not> truthy (values ! si ! i)"
    then have mr: "map_rows (execute_row ?p wrap) (values ! si) = Inr rs"
      by (auto simp: execute_def sel split: if_splits)
    from map_rows_nth [OF mr] a have "execute_row ?p wrap (values ! si ! i) = Inr (rs ! i)"
      by simp
    with a show "rs ! i = None" by (simp add: execute_row_def)
  }
qed

text \<open>
  The sample: \<^verbatim>\<open>"a"\<close> is accepted by both types and resolves to \<open>A\<close>, the first listed;
  \<^verbatim>\<open>"zzz"\<close> is accepted by none, and the batch that holds it throws; the row of \<^verbatim>\<open>null\<close> is
  \<^verbatim>\<open>null\<close>.
\<close>

theorem getTypeNameFromSpecifier_first_match_witness:
  "getTypeNameFromSpecifier (PgPolymorphicPlan_new 0 1 example_types) (JStr (js ''a'')) = Inr (js ''A'') \<and>
   js ''A'' \<noteq> [] \<and>
   (\<exists>ts1 ts2 m. map fst example_types = ts1 @ js ''A'' # ts2 \<and>
      map_of example_types (js ''A'') = Some m \<and> m (JStr (js ''a''))) \<and>
   getTypeNameFromSpecifier (PgPolymorphicPlan_new 0 1 example_types) (JStr (js ''zzz'')) =
     Inl CouldNotDetermineType \<and>
   execute (PgPolymorphicPlan_new 0 1 example_types) (\<lambda>t. t) good_batch =
     Inr [Some (js ''A''), None, Some (js ''B'')] \<and>
   (\<exists>T ts1 ts2 m. [Some (js ''A''), None, Some (js ''B'')] ! 2 = Some T \<and>
      map fst example_types = ts1 @ T # ts2 \<and>
      map_of example_types T = Some m \<and> m (good_batch ! 1 ! 2)) \<and>
   truthy (example_batch ! 1 ! 2) \<and>
   execute (PgPolymorphicPlan_new 0 1 example_types) (\<lambda>t. t) example_batch =
     Inl CouldNotDetermineType \<and>
   \<not> truthy (good_batch ! 1 ! 1) \<and> [Some (js ''A''), None, Some (js ''B'')] ! 1 = None"
proof -
  have a: "getTypeNameFromSpecifier (PgPolymorphicPlan_new 0 1 example_types) (JStr (js ''a'')) =
      Inr (js ''A'')"
    by (simp add: polymorphic_eval)
  have rej: "\<forall>(t, m) \<in> set example_types. \<not> m (JStr (js ''zzz''))"
    by (simp add: example_types_def js_def)
  have g: "execute (PgPolymorphicPlan_new 0 1 example_types) (\<lambda>t. t) good_batch =
      Inr [Some (js ''A''), None, Some (js ''B'')]"
    by (simp add: polymorphic_eval good_batch_def)
  have ex: "2 < length (good_batch ! 1)" "truthy (good_batch ! 1 ! 2)"
    "1 < length (good_batch ! 1)" "\<not> truthy (good_batch ! 1 ! 1)"
    by (simp_all add: good_batch_def js_def)
  have t: "truthy (example_batch ! 1 ! 2)" by (simp add: example_batch_def js_def)
  have bad: "1 < length example_batch \<and>
      (\<exists>s \<in> set (example_batch ! 1). truthy s \<and> (\<forall>(t, m) \<in> set example_types. \<not> m s))"
    by (simp add: example_batch_def example_types_def js_def)
  from getTypeNameFromSpecifier_first_match
    [of 0 1 example_types "JStr (js ''a'')" "js ''A''" "\<lambda>t. t" good_batch
        "[Some (js ''A''), None, Some (js ''B'')]" 2] a g ex
  have 1: "js ''A'' \<noteq> [] \<and>
     (\<exists>ts1 ts2 m. map fst example_types = ts1 @ js ''A'' # ts2 \<and>
        map_of example_types (js ''A'') = Some m \<and> m (JStr (js ''a'')))"
    and 3: "\<exists>T ts1 ts2 m. [Some (js ''A''), None, Some (js ''B'')] ! 2 = Some T \<and>
      map fst example_types = ts1 @ T # ts2 \<and>
      map_of example_types T = Some m \<and> m (good_batch ! 1 ! 2)"
    by blast+
  from getTypeNameFromSpecifier_first_match [of 0 1 example_types "JStr (js ''zzz'')"] rej
  have 2: "getTypeNameFromSpecifier (PgPolymorphicPlan_new 0 1 example_types) (JStr (js ''zzz'')) =
     Inl CouldNotDetermineType"
    by blast
  from getTypeNameFromSpecifier_first_match
    [of 0 1 example_types _ _ "\<lambda>t. t" example_batch] bad
  have 4: "execute (PgPolymorphicPlan_new 0 1 example_types) (\<lambda>t. t) example_batch =
     Inl CouldNotDetermineType"
    by blast
  from getTypeNameFromSpecifier_first_match
    [of 0 1 example_types _ _ "\<lambda>t. t" good_batch "[Some (js ''A''), None, Some (js ''B'')]" 1]
    g ex
  have 5: "[Some (js ''A''), None, Some (js ''B'')] ! 1 = None" by blast
  from a 1 2 g 3 t 4 ex(4) 5 show ?thesis by blast
qed

subsection \<open>Falsy specifiers\<close>

text \<open>
  C8, as stated: for every input batch, \<^verbatim>\<open>execute\<close> maps each row with a falsy specifier to
  \<^verbatim>\<open>null\<close> without raising an error. In a batch whose first specifier is \<^verbatim>\<open>null\<close> and whose
  second one is accepted by no type, the call throws, and the first row gets no result.
\<close>

theorem execute_null_row_counterexample:
  "\<not> truthy (null_then_unmatched_batch ! typeSpecifierPlanId example_plan ! 0) \<and>
   execute example_plan (\<lambda>t. t) null_then_unmatched_batch = Inl CouldNotDetermineType"
  by (simp add: polymorphic_eval null_then_unmatched_batch_def)

text \<open>
  C8, amended: the callback of \<^verbatim>\<open>execute\<close> maps a falsy specifier to \<^verbatim>\<open>null\<close>, whatever the
  plan's types are (no predicate is consulted, no error is raised for this row); hence the
  row is \<^verbatim>\<open>null\<close> in every batch that \<^verbatim>\<open>execute\<close> returns, a batch of falsy specifiers alone
  always returns, with \<^verbatim>\<open>null\<close> in every row, and when \<^verbatim>\<open>execute\<close> throws, the error is that of
  a row with a truthy specifier.
\<close>

theorem execute_falsy_specifier_null:
  "(\<not> truthy s \<longrightarrow> execute_row p wrap s = Inr None) \<and>
   (execute p wrap values = Inr rs \<and> i < length (values ! typeSpecifierPlanId p) \<and>
      \<not> truthy (values ! typeSpecifierPlanId p ! i) \<longrightarrow> rs ! i = None) \<and>
   (typeSpecifierPlanId p < length values \<and>
      (\<forall>s \<in> set (values ! typeSpecifierPlanId p). \<not> truthy s) \<longrightarrow>
      execute p wrap values = Inr (replicate (length (values ! typeSpecifierPlanId p)) None)) \<and>
   (typeSpecifierPlanId p < length values \<and> execute p wrap values = Inl e \<longrightarrow>
      (\<exists>j < length (values ! typeSpecifierPlanId p).
         truthy (values ! typeSpecifierPlanId p ! j) \<and>
         execute_row p wrap (values ! typeSpecifierPlanId p ! j) = Inl e))"
proof (intro conjI impI)
  show row: "execute_row p wrap s = Inr None" if "\<not> truthy s" for s
    using that by (simp add: execute_row_def)
  {
    assume a: "execute p wrap values = Inr rs \<and> i < length (values ! typeSpecifierPlanId p) \<and>
      \<not> truthy (values ! typeSpecifierPlanId p ! i)"
    then have "map_rows (execute_row p wrap) (values ! typeSpecifierPlanId p) = Inr rs"
      by (auto simp: execute_def split: if_splits)
    from map_rows_nth [OF this] a
    have "execute_row p wrap (values ! typeSpecifierPlanId p ! i) = Inr (rs ! i)" by simp
    with row [of "values ! typeSpecifierPlanId p ! i"] a show "rs ! i = None" by simp
  }
  {
    assume a: "typeSpecifierPlanId p < length values \<and>
      (\<forall>s \<in> set (values ! typeSpecifierPlanId p). \<not> truthy s)"
    have "map_rows (execute_row p wrap) xs = Inr (replicate (length xs) None)"
      if "\<forall>s \<in> set xs. \<not> truthy s" for xs
      using that by (induction xs) (simp_all add: row)
    with a show "execute p wrap values =
        Inr (replicate (length (values ! typeSpecifierPlanId p)) None)"
      by (simp add: execute_def)
  }
  {
    assume a: "typeSpecifierPlanId p < length values \<and> execute p wrap values = Inl e"
    then have "map_rows (execute_row p wrap) (values ! typeSpecifierPlanId p) = Inl e"
      by (auto simp: execute_def)
    from map_rows_first_error [OF this] obtain j where
      j: "j < length (values ! typeSpecifierPlanId p)"
        "execute_row p wrap (values ! typeSpecifierPlanId p ! j) = Inl e" by blast
    have "truthy (values ! typeSpecifierPlanId p ! j)"
    proof (rule ccontr)
      assume "\<not> truthy (values ! typeSpecifierPlanId p ! j)"
      from row [OF this] j(2) show False by simp
    qed
    with j show "\<exists>j < length (values ! typeSpecifierPlanId p).
         truthy (values ! typeSpecifierPlanId p ! j) \<and>
         execute_row p wrap (values ! typeSpecifierPlanId p ! j) = Inl e"
      by blast
  }
qed

text \<open>
  The sample: the six falsy values, on a plan that would throw a \<^verbatim>\<open>TypeError\<close> as soon as
  a predicate were consulted; and the batch above, whose error is that of its second row.
\<close>

theorem execute_falsy_specifier_null_witness:
  "\<not> truthy JNull \<and> execute_row poisoned_plan (\<lambda>t. t) JNull = Inr None \<and>
   execute_row poisoned_plan (\<lambda>t. t) (JStr (js ''a'')) = Inl TypeError \<and>
   execute example_plan (\<lambda>t. t) good_batch = Inr [Some (js ''A''), None, Some (js ''B'')] \<and>
   [Some (js ''A''), None, Some (js ''B'')] ! 1 = None \<and>
   execute poisoned_plan (\<lambda>t. t) falsy_batch = Inr (replicate 6 None) \<and>
   execute example_plan (\<lambda>t. t) null_then_unmatched_batch = Inl CouldNotDetermineType \<and>
   (\<exists>j < length (null_then_unmatched_batch ! typeSpecifierPlanId example_plan).
      truthy (null_then_unmatched_batch ! typeSpecifierPlanId example_plan ! j) \<and>
      execute_row example_plan (\<lambda>t. t)
        (null_then_unmatched_batch ! typeSpecifierPlanId example_plan ! j) =
        Inl CouldNotDetermineType)"
proof -
  have f: "\<not> truthy JNull" by simp
  have p: "execute_row poisoned_plan (\<lambda>t. t) (JStr (js ''a'')) = Inl TypeError"
    by (simp add: poisoned_plan_def polymorphic_eval)
  have g: "execute example_plan (\<lambda>t. t) good_batch = Inr [Some (js ''A''), None, Some (js ''B'')] \<and>
      1 < length (good_batch ! typeSpecifierPlanId example_plan) \<and>
      \<not> truthy (good_batch ! typeSpecifierPlanId example_plan ! 1)"
    by (simp add: polymorphic_eval good_batch_def)
  have b: "typeSpecifierPlanId poisoned_plan < length falsy_batch \<and>
      (\<forall>s \<in> set (falsy_batch ! typeSpecifierPlanId poisoned_plan). \<not> truthy s)"
    by (simp add: poisoned_plan_def falsy_batch_def)
  have len: "length (falsy_batch ! typeSpecifierPlanId poisoned_plan) = 6"
    by (simp add: poisoned_plan_def falsy_batch_def)
  have t: "typeSpecifierPlanId example_plan < length null_then_unmatched_batch \<and>
      execute example_plan (\<lambda>t. t) null_then_unmatched_batch = Inl CouldNotDetermineType"
    by (simp add: polymorphic_eval null_then_unmatched_batch_def)
  from execute_falsy_specifier_null [of JNull poisoned_plan "\<lambda>t. t"] f
  have 1: "execute_row poisoned_plan (\<lambda>t. t) JNull = Inr None" by blast
  from execute_falsy_specifier_null
    [of _ example_plan "\<lambda>t. t" good_batch "[Some (js ''A''), None, Some (js ''B'')]" 1] g
  have 2: "[Some (js ''A''), None, Some (js ''B'')] ! 1 = None" by blast
  from execute_falsy_specifier_null [of _ poisoned_plan _ falsy_batch, where wrap = "\<lambda>t. t"] b
  have 3: "execute poisoned_plan (\<lambda>t. t) falsy_batch = Inr (replicate 6 None)"
    by (simp only: len) blast
  from execute_falsy_specifier_null
    [of _ example_plan "\<lambda>t. t" null_then_unmatched_batch _ _ CouldNotDetermineType] t
  have 4: "\<exists>j < length (null_then_unmatched_batch ! typeSpecifierPlanId example_plan).
      truthy (null_then_unmatched_batch ! typeSpecifierPlanId example_plan ! j) \<and>
      execute_row example_plan (\<lambda>t. t)
        (null_then_unmatched_batch ! typeSpecifierPlanId example_plan ! j) =
        Inl CouldNotDetermineType"
    by blast
  from f p g 1 2 3 t 4 show ?thesis by blast
qed

section \<open>Properties of Behavior\<close>

subsection \<open>The backwards loop and the split\<close>

lemma matches_loop_Some:
  "matches_loop specs fs n = Some b \<longleftrightarrow>
     (\<exists>i<n. scopeMatches (scope (specs ! i)) fs (positive (specs ! i)) \<and> positive (specs ! i) = b \<and>
        (\<forall>j. i < j \<and> j < n \<longrightarrow> \<not> scopeMatches (scope (specs ! j)) fs (positive (specs ! j))))"
proof (induction n)
  case 0
  show ?case by simp
next
  case (Suc n)
  let ?hit = "\<lambda>i. scopeMatches (scope (specs ! i)) fs (positive (specs ! i))"
  show ?case
  proof (cases "?hit n")
    case True
    have "(\<exists>i<Suc n. ?hit i \<and> positive (specs ! i) = b \<and> (\<forall>j. i < j \<and> j < Suc n \<longrightarrow> \<not> ?hit j))
        \<longleftrightarrow> positive (specs ! n) = b"
    proof
      assume "\<exists>i<Suc n. ?hit i \<and> positive (specs ! i) = b \<and> (\<forall>j. i < j \<and> j < Suc n \<longrightarrow> \<not> ?hit j)"
      then obtain i where i: "i < Suc n" "positive (specs ! i) = b"
        "\<forall>j. i < j \<and> j < Suc n \<longrightarrow> \<not> ?hit j" by blast
      have "i = n"
      proof (rule ccontr)
        assume "i \<noteq> n"
        with i(1) have "i < n" by simp
        with i(3) True show False by simp
      qed
      with i(2) show "positive (specs ! n) = b" by simp
    next
      assume "positive (specs ! n) = b"
      with True show "\<exists>i<Suc n. ?hit i \<and> positive (specs ! i) = b \<and> (\<forall>j. i < j \<and> j < Suc n \<longrightarrow> \<not> ?hit j)"
        by (intro exI [of _ n]) auto
    qed
    with True show ?thesis by simp
  next
    case False
    have "(\<exists>i<Suc n. ?hit i \<and> positive (specs ! i) = b \<and> (\<forall>j. i < j \<and> j < Suc n \<longrightarrow> \<not> ?hit j))
        \<longleftrightarrow> (\<exists>i<n. ?hit i \<and> positive (specs ! i) = b \<and> (\<forall>j. i < j \<and> j < n \<longrightarrow> \<not> ?hit j))"
    proof (intro iffI; elim exE conjE)
      fix i assume i: "i < Suc n" "?hit i" "positive (specs ! i) = b"
        "\<forall>j. i < j \<and> j < Suc n \<longrightarrow> \<not> ?hit j"
      from i(1,2) False have "i < n" by (cases "i = n") auto
      with i show "\<exists>i<n. ?hit i \<and> positive (specs ! i) = b \<and> (\<forall>j. i < j \<and> j < n \<longrightarrow> \<not> ?hit j)"
        by (intro exI [of _ i]) auto
    next
      fix i assume i: "i < n" "?hit i" "positive (specs ! i) = b"
        "\<forall>j. i < j \<and> j < n \<longrightarrow> \<not> ?hit j"
      have "\<forall>j. i < j \<and> j < Suc n \<longrightarrow> \<not> ?hit j"
        using i(4) False by (auto simp: less_Suc_eq)
      with i show "\<exists>i<Suc n. ?hit i \<and> positive (specs ! i) = b \<and> (\<forall>j. i < j \<and> j < Suc n \<longrightarrow> \<not> ?hit j)"
        by (intro exI [of _ i]) auto
    qed
    with False Suc.IH show ?thesis by simp
  qed
qed

lemma matches_loop_None:
  "matches_loop specs fs n = None \<longleftrightarrow>
     (\<forall>i<n. \<not> scopeMatches (scope (specs ! i)) fs (positive (specs ! i)))"
  by (induction n) (auto simp: less_Suc_eq)

lemma words_from_spaces:
  "\<forall>c \<in> set xs. is_space c \<Longrightarrow> words_from [] (xs @ ys) = words_from [] ys"
  by (induction xs) auto

lemma words_from_dropWhile:
  "words_from [] (dropWhile is_space cs) = words_from [] cs"
proof -
  have "words_from [] (takeWhile is_space cs @ dropWhile is_space cs) =
      words_from [] (dropWhile is_space cs)"
    by (rule words_from_spaces) (auto dest: set_takeWhileD)
  then show ?thesis by simp
qed

lemma split_spaces_from_words:
  "split_spaces_from acc s =
     (if acc = [] \<and> (s = [] \<or> is_space (hd s)) then [[]] else []) @ words_from acc s @
     (if s \<noteq> [] \<and> is_space (last s) then [[]] else [])"
proof (induction acc s rule: split_spaces_from.induct)
  case (1 acc)
  show ?case by simp
next
  case (2 acc c cs)
  show ?case
  proof (cases "is_space c")
    case False
    with "2.IH"(2) show ?thesis by simp
  next
    case True
    let ?cs = "dropWhile is_space cs"
    note ih = "2.IH"(1) [OF True]
    have tail: "split_spaces_from [] ?cs =
        words_from [] cs @ (if is_space (last (c # cs)) then [[]] else [])"
    proof (cases "?cs = []")
      case True
      then have all: "\<forall>x \<in> set cs. is_space x" by (simp add: dropWhile_eq_Nil_conv)
      then have "words_from [] cs = []"
        using words_from_spaces [of cs "[]"] by simp
      moreover from all \<open>is_space c\<close> have "is_space (last (c # cs))"
        by (cases "cs = []") auto
      moreover have "split_spaces_from [] ?cs = [[]]" unfolding True by simp
      ultimately show ?thesis by simp
    next
      case False
      then have hd: "\<not> is_space (hd ?cs)" by (metis hd_dropWhile)
      from False have "cs \<noteq> []" by auto
      have "last ?cs = last cs"
        using False by (metis takeWhile_dropWhile_id last_appendR)
      with \<open>cs \<noteq> []\<close> have "last (c # cs) = last ?cs" by simp
      with ih False hd show ?thesis by (simp add: words_from_dropWhile)
    qed
    show ?thesis using True tail by simp
  qed
qed

lemma split_spaces_words:
  "split_spaces s =
     (if s = [] \<or> is_space (hd s) then [[]] else []) @ spec_words s @
     (if s \<noteq> [] \<and> is_space (last s) then [[]] else [])"
  by (simp add: split_spaces_def spec_words_def split_spaces_from_words)

lemma words_from_append:
  "is_space c \<Longrightarrow> words_from acc (a @ c # b) = words_from acc a @ words_from [] b"
  by (induction a arbitrary: acc) auto

lemma spec_words_append:
  "spec_words (a @ js '' '' @ b) = spec_words a @ spec_words b"
  by (simp add: spec_words_def js_def words_from_append is_space_def)

lemma spec_words_join_space:
  "spec_words (join_space xs) = concat (map spec_words xs)"
proof (induction xs rule: join_space.induct)
  case 1
  show ?case by (simp add: spec_words_def)
next
  case (2 x)
  show ?case by simp
next
  case (3 x y ys)
  then show ?case by (simp add: spec_words_append)
qed

lemma join_space_open_end:
  "(join_space xs = [] \<or> is_space (last (join_space xs))) \<longleftrightarrow>
   (xs = [] \<or> last xs = [] \<or> is_space (last (last xs)))"
proof (induction xs rule: join_space.induct)
  case 1
  show ?case by simp
next
  case (2 x)
  show ?case by simp
next
  case (3 x y ys)
  have sp: "is_space 32" by (simp add: is_space_def)
  have "last (join_space (x # y # ys)) =
      (if join_space (y # ys) = [] then 32 else last (join_space (y # ys)))"
    by (simp add: js_def)
  with 3 sp show ?case by (auto simp: js_def)
qed

lemma parseSpecs_final:
  "parseSpecs (finalBehaviorSpecsString this l dflt) =
     map parseSpec
       ((if dflt = [] \<or> is_space (hd dflt) then [[]] else []) @
        spec_words dflt @ spec_words (globalBehaviorDefaults this) @ local_words l @
        (if local_open_end l then [[]] else []))"
proof -
  define ls where "ls = (case l of SpecString s \<Rightarrow> s | SpecArray xs \<Rightarrow> join_space xs
     | SpecNull \<Rightarrow> [] | SpecUndefined \<Rightarrow> [])"
  let ?g = "globalBehaviorDefaults this"
  let ?F = "dflt @ js '' '' @ ?g @ js '' '' @ ls"
  have F: "finalBehaviorSpecsString this l dflt = ?F"
    by (simp add: finalBehaviorSpecsString_def ls_def)
  have sp: "is_space 32" by (simp add: is_space_def)
  have w: "spec_words ls = local_words l"
  proof (cases l)
    case (SpecArray xs)
    then show ?thesis by (simp add: ls_def local_words_def spec_words_join_space)
  qed (simp_all add: ls_def local_words_def spec_words_def)
  have e: "(ls = [] \<or> is_space (last ls)) \<longleftrightarrow> local_open_end l"
    by (cases l) (simp_all add: ls_def local_open_end_def join_space_open_end)
  have ne: "?F \<noteq> []" by (simp add: js_def)
  have hd: "is_space (hd ?F) \<longleftrightarrow> dflt = [] \<or> is_space (hd dflt)"
    using sp by (cases dflt) (simp_all add: js_def)
  have last: "is_space (last ?F) \<longleftrightarrow> ls = [] \<or> is_space (last ls)"
    using sp by (simp add: js_def)
  have words: "spec_words ?F = spec_words dflt @ spec_words ?g @ spec_words ls"
    by (simp add: spec_words_append)
  show ?thesis
    unfolding F parseSpecs_def split_spaces_words [of ?F]
    using ne hd last e by (simp only: words w) simp
qed

lemmas behavior_eval =
  matches_def finalBehaviorSpecsString_def parseSpecs_def parseSpec_def parseScope_def
  split_spaces_def is_space_def scopeMatches_def example_behavior_def example_local_def js_def
  example_array_def empty_behavior_def spec_words_def local_words_def local_open_end_def

lemmas words_eval =
  spec_words_def local_words_def local_open_end_def is_space_def js_def

subsection \<open>Last match wins\<close>



section \<open>Properties of Middlewares\<close>

lemma executeMiddleware_unfold:
  "idx < length mws \<Longrightarrow>
   executeMiddleware name allowAsync mws activity arg idx maxIdx =
     (case run_middleware
             (if int idx = maxIdx then activity arg
              else executeMiddleware name allowAsync mws activity arg (idx + 1) maxIdx)
             ((mws ! idx) arg) False of
        Inl e \<Rightarrow> Inl e
      | Inr result \<Rightarrow>
          if \<not> allowAsync \<and> isPromiseLike result
          then Inl (SynchronousActivityError name idx)
          else Inr result)"
  by (subst executeMiddleware.simps) simp

lemma executeMiddleware_sync_result:
  assumes "idx < length mws"
    and "returned = run_middleware
       (if int idx = maxIdx then activity arg
        else executeMiddleware name False mws activity arg (idx + 1) maxIdx)
       ((mws ! idx) arg) False"
  shows "executeMiddleware name False mws activity arg idx maxIdx =
     (case returned of
        Inl e \<Rightarrow> Inl e
      | Inr result \<Rightarrow>
          if isPromiseLike result then Inl (SynchronousActivityError name idx) else Inr result)"
  by (subst executeMiddleware_unfold [OF assms(1)]) (simp add: assms(2) split: sum.splits)

lemma executeMiddleware_beyond:
  "\<not> idx < length mws \<Longrightarrow>
   executeMiddleware name allowAsync mws activity arg idx maxIdx = Inl NotAFunction"
  by (subst executeMiddleware.simps) simp

lemma executeMiddleware_sync_never_promise:
  "executeMiddleware name False mws activity arg idx maxIdx \<noteq> Inr (PromiseLike s)"
proof (cases "idx < length mws")
  case True
  show ?thesis
    by (subst executeMiddleware_unfold [OF True]) (auto split: sum.splits)
next
  case False
  then show ?thesis by (simp add: executeMiddleware_beyond)
qed

lemmas middleware_eval =
  runSync_def register_def Middlewares_new_def passthrough_def async_middleware_def
  throwing_middleware_def catching_middleware_def async_activity_def sync_activity_def
  example_middlewares_def swallowing_middlewares_def no_middlewares_def

subsection \<open>The synchronous check\<close>

text \<open>
  C9, as stated: \<^verbatim>\<open>runSync\<close> never returns a promise, and \<^verbatim>\<open>executeMiddleware\<close> with
  \<^verbatim>\<open>allowAsync = false\<close> raises an error exactly when the middleware it invokes returns a
  promise-like result. With no middleware registered for the activity, \<^verbatim>\<open>runSync\<close>
  returns the promise of the activity; and \<^verbatim>\<open>executeMiddleware\<close> also raises when the
  middleware throws, having returned nothing.
\<close>

theorem runSync_counterexample:
  "runSync no_middlewares (js ''act'') 1 async_activity = Inr (PromiseLike (Inr 2)) \<and>
   run_middleware (sync_activity 1) (throwing_middleware 1) False = Inl (UserError 7) \<and>
   executeMiddleware (js ''act'') False [throwing_middleware] sync_activity 1 0 0 = Inl (UserError 7)"
  by (simp add: middleware_eval executeMiddleware_unfold)

text \<open>
  C9, amended: \<^verbatim>\<open>executeMiddleware\<close> with \<^verbatim>\<open>allowAsync = false\<close> throws the error that names
  the activity and the index whenever the middleware it invokes returns a promise-like
  result; it returns the result of the middleware when that is not promise-like, and it
  hands on the error of a middleware that throws. So it never returns a promise, and
  neither does \<^verbatim>\<open>runSync\<close> for an activity with a registered middleware. For an activity
  with no registered middleware, \<^verbatim>\<open>runSync\<close> is the activity itself, unchecked.
\<close>

theorem executeMiddleware_sync_check:
  "(idx < length mws \<and>
    returned = run_middleware
       (if int idx = maxIdx then activity arg
        else executeMiddleware name False mws activity arg (idx + 1) maxIdx)
       ((mws ! idx) arg) False \<longrightarrow>
      (\<forall>s. returned = Inr (PromiseLike s) \<longrightarrow>
         executeMiddleware name False mws activity arg idx maxIdx =
           Inl (SynchronousActivityError name idx)) \<and>
      (\<forall>v. returned = Inr (Plain v) \<longrightarrow>
         executeMiddleware name False mws activity arg idx maxIdx = Inr (Plain v)) \<and>
      (\<forall>e. returned = Inl e \<longrightarrow>
         executeMiddleware name False mws activity arg idx maxIdx = Inl e)) \<and>
   (\<forall>s. executeMiddleware name False mws activity arg idx maxIdx \<noteq> Inr (PromiseLike s)) \<and>
   (\<forall>ms s. middlewares this name = Some ms \<longrightarrow>
      runSync this name arg activity \<noteq> Inr (PromiseLike s)) \<and>
   (middlewares this name = None \<longrightarrow> runSync this name arg activity = activity arg)"
proof (intro conjI impI allI)
  show "executeMiddleware name False mws activity arg idx maxIdx \<noteq> Inr (PromiseLike s)" for s
    by (rule executeMiddleware_sync_never_promise)
  show "runSync this name arg activity \<noteq> Inr (PromiseLike s)"
    if "middlewares this name = Some ms" for ms s
    using that by (simp add: runSync_def executeMiddleware_sync_never_promise)
  show "runSync this name arg activity = activity arg" if "middlewares this name = None"
    using that by (simp add: runSync_def)
next
  fix s
  assume a: "idx < length mws \<and>
    returned = run_middleware
       (if int idx = maxIdx then activity arg
        else executeMiddleware name False mws activity arg (idx + 1) maxIdx)
       ((mws ! idx) arg) False" and b: "returned = Inr (PromiseLike s)"
  from a have "executeMiddleware name False mws activity arg idx maxIdx =
     (case returned of
        Inl e \<Rightarrow> Inl e
      | Inr result \<Rightarrow>
          if isPromiseLike result then Inl (SynchronousActivityError name idx) else Inr result)"
    by (intro executeMiddleware_sync_result) simp_all
  with b show "executeMiddleware name False mws activity arg idx maxIdx =
      Inl (SynchronousActivityError name idx)"
    by simp
next
  fix v
  assume a: "idx < length mws \<and>
    returned = run_middleware
       (if int idx = maxIdx then activity arg
        else executeMiddleware name False mws activity arg (idx + 1) maxIdx)
       ((mws ! idx) arg) False" and b: "returned = Inr (Plain v)"
  from a have "executeMiddleware name False mws activity arg idx maxIdx =
     (case returned of
        Inl e \<Rightarrow> Inl e
      | Inr result \<Rightarrow>
          if isPromiseLike result then Inl (SynchronousActivityError name idx) else Inr result)"
    by (intro executeMiddleware_sync_result) simp_all
  with b show "executeMiddleware name False mws activity arg idx maxIdx = Inr (Plain v)"
    by simp
next
  fix e
  assume a: "idx < length mws \<and>
    returned = run_middleware
       (if int idx = maxIdx then activity arg
        else executeMiddleware name False mws activity arg (idx + 1) maxIdx)
       ((mws ! idx) arg) False" and b: "returned = Inl e"
  from a have "executeMiddleware name False mws activity arg idx maxIdx =
     (case returned of
        Inl e \<Rightarrow> Inl e
      | Inr result \<Rightarrow>
          if isPromiseLike result then Inl (SynchronousActivityError name idx) else Inr result)"
    by (intro executeMiddleware_sync_result) simp_all
  with b show "executeMiddleware name False mws activity arg idx maxIdx = Inl e"
    by simp
qed

text \<open>
  The samples: the inner middleware returns a promise and its call throws the error with
  index 1; \<^verbatim>\<open>runSync\<close> hands the error on, or returns zero when the outer middleware
  catches it.
\<close>

theorem executeMiddleware_sync_check_witness:
  "1 < length [passthrough, async_middleware] \<and>
   run_middleware (sync_activity 5) (async_middleware 5) False = Inr (PromiseLike (Inr 5)) \<and>
   executeMiddleware (js ''act'') False [passthrough, async_middleware] sync_activity 5 1 1 =
     Inl (SynchronousActivityError (js ''act'') 1) \<and>
   runSync example_middlewares (js ''act'') 5 sync_activity =
     Inl (SynchronousActivityError (js ''act'') 1) \<and>
   runSync swallowing_middlewares (js ''act'') 5 sync_activity = Inr (Plain 0) \<and>
   runSync example_middlewares (js ''act'') 5 sync_activity \<noteq> Inr (PromiseLike (Inr 5)) \<and>
   middlewares no_middlewares (js ''act'') = None \<and>
   runSync no_middlewares (js ''act'') 5 async_activity = async_activity 5"
proof -
  let ?mws = "[passthrough, async_middleware]"
  have h: "1 < length ?mws \<and>
      Inr (PromiseLike (Inr 5)) = run_middleware
       (if int 1 = 1 then sync_activity 5
        else executeMiddleware (js ''act'') False ?mws sync_activity 5 (1 + 1) 1)
       ((?mws ! 1) 5) False"
    by (simp add: async_middleware_def)
  have r: "run_middleware (sync_activity 5) (async_middleware 5) False = Inr (PromiseLike (Inr 5))"
    by (simp add: async_middleware_def)
  have reg: "middlewares example_middlewares (js ''act'') = Some ?mws"
    by (simp add: middleware_eval)
  have none: "middlewares no_middlewares (js ''act'') = None"
    by (simp add: middleware_eval)
  have e1: "runSync example_middlewares (js ''act'') 5 sync_activity =
      Inl (SynchronousActivityError (js ''act'') 1)"
    by (simp add: middleware_eval executeMiddleware_unfold)
  have e2: "runSync swallowing_middlewares (js ''act'') 5 sync_activity = Inr (Plain 0)"
    by (simp add: middleware_eval executeMiddleware_unfold)
  note inst = executeMiddleware_sync_check
    [where idx = 1 and mws = ?mws and returned = "Inr (PromiseLike (Inr 5))" and maxIdx = 1
       and activity = sync_activity and arg = 5 and name = "js ''act''"]
  from inst [where this = example_middlewares] h
  have 1: "executeMiddleware (js ''act'') False ?mws sync_activity 5 1 1 =
      Inl (SynchronousActivityError (js ''act'') 1)"
    by blast
  from inst [where this = example_middlewares] reg
  have 2: "runSync example_middlewares (js ''act'') 5 sync_activity \<noteq> Inr (PromiseLike (Inr 5))"
    by blast
  from executeMiddleware_sync_check
    [where this = no_middlewares and name = "js ''act''" and arg = 5 and activity = async_activity]
    none
  have 3: "runSync no_middlewares (js ''act'') 5 async_activity = async_activity 5"
    by blast
  from h r 1 2 3 e1 e2 none show ?thesis by blast
qed

section \<open>Properties of the plan diagram\<close>

subsection \<open>Decimal digits\<close>

lemma digits_nonempty: "digits n \<noteq> []"
  by (subst digits.simps) simp

lemma digits_range: "c \<in> set (digits n) \<Longrightarrow> 48 \<le> c \<and> c \<le> 57"
proof (induction n rule: digits.induct)
  case (1 n)
  show ?case
  proof (cases "n < 10")
    case True
    with "1.prems" show ?thesis by (subst (asm) digits.simps) simp
  next
    case False
    from "1.prems" have "c \<in> set (digits (n div 10)) \<or> c = 48 + n mod 10"
      by (subst (asm) digits.simps) (auto simp: False)
    then show ?thesis
    proof
      assume "c \<in> set (digits (n div 10))"
      with "1.IH" False show ?thesis by simp
    next
      assume "c = 48 + n mod 10"
      moreover have "n mod 10 < 10" by simp
      ultimately show ?thesis by linarith
    qed
  qed
qed

lemma digits_small: "n < 10 \<Longrightarrow> digits n = [48 + n]"
  by (subst digits.simps) simp

lemma digits_large: "\<not> n < 10 \<Longrightarrow> digits n = digits (n div 10) @ [48 + n mod 10]"
  by (subst digits.simps) simp

lemma digits_length_one: "length (digits n) = Suc 0 \<longleftrightarrow> n < 10"
proof (cases "n < 10")
  case True
  then show ?thesis by (simp add: digits_small)
next
  case False
  have "length (digits (n div 10)) \<noteq> 0" using digits_nonempty by simp
  with False show ?thesis by (simp add: digits_large)
qed

lemma digits_inj: "digits n = digits m \<Longrightarrow> n = m"
proof (induction n arbitrary: m rule: digits.induct)
  case (1 n)
  show ?case
  proof (cases "n < 10")
    case True
    then have "length (digits n) = Suc 0" by (simp add: digits_length_one)
    with "1.prems" have m: "m < 10" by (simp add: digits_length_one)
    with True "1.prems" show ?thesis by (simp add: digits_small)
  next
    case False
    then have "length (digits n) \<noteq> Suc 0" by (simp add: digits_length_one)
    with "1.prems" have m: "\<not> m < 10" by (simp add: digits_length_one)
    from "1.prems" False m have "digits (n div 10) = digits (m div 10)" "n mod 10 = m mod 10"
      by (simp_all add: digits_large)
    with "1.IH" [OF False, of "m div 10"] have "n div 10 = m div 10" by simp
    with \<open>n mod 10 = m mod 10\<close> show ?thesis
      by (metis div_mult_mod_eq)
  qed
qed

lemma split_at_separator:
  assumes "xs @ c # ys = xs' @ c # ys'" "c \<notin> set xs" "c \<notin> set xs'"
  shows "xs = xs' \<and> ys = ys'"
  using assms
proof (induction xs arbitrary: xs')
  case Nil
  then show ?case by (cases xs') auto
next
  case (Cons x xs)
  then show ?case by (cases xs') auto
qed

lemma ids_of_label:
  assumes "digits a @ [8712] @ digits b @ js '']'' @ r = digits a' @ [8712] @ digits b' @ js '']'' @ r'"
  shows "a = a' \<and> b = b'"
proof -
  have na: "8712 \<notin> set (digits n)" for n using digits_range [of 8712 n] by auto
  have nb: "93 \<notin> set (digits n)" for n using digits_range [of 93 n] by auto
  from assms have "digits a @ 8712 # (digits b @ js '']'' @ r) = digits a' @ 8712 # (digits b' @ js '']'' @ r')"
    by simp
  from split_at_separator [OF this na na]
  have 1: "digits a = digits a'" and 2: "digits b @ 93 # r = digits b' @ 93 # r'"
    by (simp_all add: js_def)
  from split_at_separator [OF 2 nb nb] have "digits b = digits b'" by simp
  with 1 show ?thesis by (simp add: digits_inj)
qed

subsection \<open>Trimming, stripping and escaping behind a clean prefix\<close>

lemma trim_end_append:
  assumes "\<not> is_space c"
  shows "rev (dropWhile is_space (rev (xs @ c # ys))) = xs @ c # rev (dropWhile is_space (rev ys))"
  using assms by (simp add: dropWhile_append)

lemma trim_end_id:
  assumes "xs = [] \<or> \<not> is_space (last xs)"
  shows "rev (dropWhile is_space (rev xs)) = xs"
proof (cases xs rule: rev_cases)
  case Nil
  then show ?thesis by simp
next
  case (snoc ys y)
  with assms show ?thesis by simp
qed

lemma trim_end_line_feed:
  assumes "xs = [] \<or> \<not> is_space (last xs)"
  shows "rev (dropWhile is_space (rev (xs @ [10]))) = xs"
proof -
  have "is_space 10" by (simp add: is_space_def)
  then show ?thesis using trim_end_id [OF assms] by simp
qed

lemma strips_escapes_prefix:
  "strips_escapes strip \<Longrightarrow> escape_free s \<Longrightarrow> strip (s @ t) = s @ strip t"
  by (simp add: strips_escapes_def)

lemma strips_escapes_id:
  assumes "strips_escapes strip" "escape_free s"
  shows "strip s = s"
proof -
  from assms have "strip (s @ []) = s @ strip []" by (rule strips_escapes_prefix)
  with assms(1) show ?thesis by (simp add: strips_escapes_def)
qed

lemma map_lookalike_id:
  assumes "\<forall>c \<in> set xs. c \<noteq> 35 \<and> c \<noteq> 34 \<and> c \<noteq> 60 \<and> c \<noteq> 62"
  shows "map lookalike xs = xs"
  using assms by (induction xs) (simp_all add: lookalike_def)

lemma lookalike_not_quote: "34 \<notin> set (map lookalike xs)"
  by (induction xs) (simp_all add: lookalike_def)

lemma lookalike_line_feed: "lookalike c = 10 \<longleftrightarrow> c = 10"
  by (simp add: lookalike_def)

lemma lookalike_carriage_return: "lookalike c = 13 \<longleftrightarrow> c = 13"
  by (simp add: lookalike_def)

lemma replace_newlines_cons:
  assumes "c \<noteq> 10" "c \<noteq> 13"
  shows "replace_newlines (c # xs) = c # replace_newlines xs"
  using assms by (cases xs) simp_all

lemma replace_newlines_line_feed: "replace_newlines (10 # xs) = js ''<br />'' @ replace_newlines xs"
  by (cases xs) simp_all

lemma replace_newlines_prefix:
  assumes "10 \<notin> set xs" "13 \<notin> set xs"
  shows "replace_newlines (xs @ ys) = xs @ replace_newlines ys"
  using assms by (induction xs) (simp_all add: replace_newlines_cons)

lemma replace_newlines_split:
  assumes "c \<noteq> 10" "c \<noteq> 13"
  shows "replace_newlines (xs @ c # ys) = replace_newlines xs @ c # replace_newlines ys"
  using assms
proof (induction xs rule: replace_newlines.induct)
  case 1
  then show ?case by (simp add: replace_newlines_cons)
next
  case (2 x)
  then show ?case by (simp add: replace_newlines_cons)
next
  case (3 x y xs)
  then show ?case by simp
qed

lemma replace_newlines_no_quote:
  "34 \<notin> set xs \<Longrightarrow> 34 \<notin> set (replace_newlines xs)"
  by (induction xs rule: replace_newlines.induct) (auto simp: js_def)


subsection \<open>The lines of the paths\<close>

lemma join_lines_last:
  assumes "Q \<noteq> []" "list_all plain_path Q"
  shows "join_lines Q \<noteq> [] \<and> \<not> is_space (last (join_lines Q))"
  using assms
proof (induction Q rule: join_lines.induct)
  case 1
  then show ?case by simp
next
  case (2 x)
  then have "x \<noteq> []" "list_all (\<lambda>c. \<not> is_space c \<and> c \<noteq> 27 \<and> c \<noteq> 155) x"
    by (simp_all add: plain_path_def)
  then have "\<not> is_space (last x)" by (cases x rule: rev_cases) simp_all
  with \<open>x \<noteq> []\<close> show ?case by simp
next
  case (3 x y ys)
  then show ?case by simp
qed

lemma join_lines_set: "c \<in> set (join_lines Q) \<Longrightarrow> c = 10 \<or> (\<exists>p \<in> set Q. c \<in> set p)"
  by (induction Q rule: join_lines.induct) auto

lemma plain_path_chars:
  "plain_path p \<Longrightarrow> c \<in> set p \<Longrightarrow> \<not> is_space c \<and> c \<noteq> 27 \<and> c \<noteq> 155"
  by (auto simp: plain_path_def list_all_iff)

lemma plain_path_no_newline:
  assumes "plain_path p"
  shows "10 \<notin> set (map lookalike p) \<and> 13 \<notin> set (map lookalike p)"
proof -
  have "is_space 10" "is_space 13" by (simp_all add: is_space_def)
  with plain_path_chars [OF assms] have "10 \<notin> set p" "13 \<notin> set p" by blast+
  then show ?thesis by (induction p) (simp_all add: lookalike_def)
qed

lemma join_lines_escape_free:
  assumes "list_all plain_path Q"
  shows "escape_free (join_lines Q)"
proof -
  have "c \<noteq> 27 \<and> c \<noteq> 155" if "c \<in> set (join_lines Q)" for c
  proof -
    from join_lines_set [OF that] show ?thesis
    proof
      assume "c = 10"
      then show ?thesis by simp
    next
      assume "\<exists>p \<in> set Q. c \<in> set p"
      then obtain p where "p \<in> set Q" "c \<in> set p" by blast
      with assms have "plain_path p" by (simp add: list_all_iff)
      from plain_path_chars [OF this \<open>c \<in> set p\<close>] show ?thesis by simp
    qed
  qed
  then show ?thesis unfolding escape_free_def by blast
qed

lemma render_paths:
  assumes "Q \<noteq> []" "list_all plain_path Q"
  shows "replace_newlines (map lookalike (10 # join_lines Q)) =
         concat (map (\<lambda>p. js ''<br />'' @ map lookalike p) Q)"
  using assms
proof (induction Q rule: join_lines.induct)
  case 1
  then show ?case by simp
next
  case (2 x)
  then have "plain_path x" by simp
  from plain_path_no_newline [OF this]
  have "replace_newlines (map lookalike x @ []) = map lookalike x @ replace_newlines []"
    by (intro replace_newlines_prefix) simp_all
  then show ?case
    by (simp add: lookalike_def [of 10] replace_newlines_line_feed)
next
  case (3 x y ys)
  then have "plain_path x" and ih: "replace_newlines (map lookalike (10 # join_lines (y # ys))) =
         concat (map (\<lambda>p. js ''<br />'' @ map lookalike p) (y # ys))"
    by simp_all
  let ?r = "map lookalike (10 # join_lines (y # ys))"
  from plain_path_no_newline [OF \<open>plain_path x\<close>]
  have "replace_newlines (map lookalike x @ ?r) = map lookalike x @ replace_newlines ?r"
    by (intro replace_newlines_prefix) simp_all
  moreover have "map lookalike (join_lines (x # y # ys)) = map lookalike x @ ?r"
    by simp
  ultimately have "replace_newlines (map lookalike (join_lines (x # y # ys))) =
      map lookalike x @ concat (map (\<lambda>p. js ''<br />'' @ map lookalike p) (y # ys))"
    using ih by simp
  then show ?case
    by (simp add: lookalike_def [of 10] replace_newlines_line_feed del: join_lines.simps)
qed


subsection \<open>The head of a label\<close>

lemma planName_set: "set (planName plan) \<subseteq> set (constructor_name plan)"
  by (auto simp: planName_def Let_def dest: in_set_takeD)

lemma identifier_like_chars:
  assumes "identifier_like (constructor_name plan)" "c \<in> set (planName plan)"
  shows "\<not> is_space c \<and> c \<noteq> 27 \<and> c \<noteq> 155 \<and> c \<noteq> 34 \<and> c \<noteq> 35 \<and> c \<noteq> 60 \<and> c \<noteq> 62 \<and> c \<noteq> 91"
proof -
  from assms(2) planName_set have "c \<in> set (constructor_name plan)" by blast
  with assms(1) show ?thesis by (simp add: identifier_like_def list_all_iff)
qed

lemma head_chars:
  assumes "identifier_like (constructor_name plan)"
    and "c \<in> set (planName plan @ js ''['' @ digits a @ [8712] @ digits b)"
  shows "\<not> is_space c \<and> c \<noteq> 27 \<and> c \<noteq> 155 \<and> c \<noteq> 34 \<and> c \<noteq> 35 \<and> c \<noteq> 60 \<and> c \<noteq> 62"
proof -
  from assms(2) consider "c \<in> set (planName plan)" | "c = 91" | "c \<in> set (digits a)"
    | "c = 8712" | "c \<in> set (digits b)"
    by (auto simp: js_def)
  then show ?thesis
  proof cases
    case 1
    with identifier_like_chars [OF assms(1)] show ?thesis by blast
  next
    case 2
    then show ?thesis by (simp add: is_space_def)
  next
    case 3
    from digits_range [OF this] show ?thesis by (simp add: is_space_def)
  next
    case 4
    then show ?thesis by (simp add: is_space_def)
  next
    case 5
    from digits_range [OF this] show ?thesis by (simp add: is_space_def)
  qed
qed


lemma mermaidEscape_head:
  assumes se: "strips_escapes strip"
    and H: "\<forall>c \<in> set H. \<not> is_space c \<and> c \<noteq> 27 \<and> c \<noteq> 155 \<and> c \<noteq> 34 \<and> c \<noteq> 35 \<and> c \<noteq> 60 \<and> c \<noteq> 62"
  shows "mermaidEscape strip (H @ 93 # tail) =
         34 # H @ 93 # replace_newlines (map lookalike (strip (rev (dropWhile is_space (rev tail))))) @ [34]"
proof -
  let ?S = "H @ 93 # tail"
  let ?T = "rev (dropWhile is_space (rev tail))"
  have sp: "\<not> is_space 93" by (simp add: is_space_def)
  have unsafe: "\<not> already_safe ?S" by (simp add: already_safe_def safe_char_def)
  have "\<not> is_space (hd ?S)" using H sp by (cases H) simp_all
  then have start: "dropWhile is_space ?S = ?S" by (cases H) simp_all
  have trim: "trim ?S = (H @ [93]) @ ?T"
    unfolding trim_def start using trim_end_append [OF sp, of H tail] by simp
  have "escape_free (H @ [93])" using H by (auto simp: escape_free_def)
  from strips_escapes_prefix [OF se this]
  have strip: "strip ((H @ [93]) @ ?T) = (H @ [93]) @ strip ?T" .
  have "\<forall>c \<in> set (H @ [93]). c \<noteq> 35 \<and> c \<noteq> 34 \<and> c \<noteq> 60 \<and> c \<noteq> 62" using H by auto
  from map_lookalike_id [OF this]
  have look: "map lookalike ((H @ [93]) @ X) = (H @ [93]) @ map lookalike X" for X
    by simp
  have "is_space 10" "is_space 13" by (simp_all add: is_space_def)
  with H have "10 \<notin> set (H @ [93])" "13 \<notin> set (H @ [93])" by auto
  then have rn: "replace_newlines ((H @ [93]) @ Y) = (H @ [93]) @ replace_newlines Y" for Y
    by (rule replace_newlines_prefix)
  show ?thesis
    unfolding mermaidEscape_def trim strip look rn using unsafe by simp
qed

lemma label_render:
  assumes "strips_escapes strip" "identifier_like (constructor_name plan)"
  shows "mermaidEscape strip (planString concise strip plan) =
         [34] @ planName plan @ js ''['' @ digits (step_id plan) @ [8712] @
         digits (layerPlan_id plan) @ js '']'' @
         replace_newlines (map lookalike (strip (rev (dropWhile is_space (rev
           ((case plan_meta concise strip plan of
               Some meta \<Rightarrow> if meta \<noteq> [] then [10] @ js ''<'' @ meta @ js ''>'' else []
             | None \<Rightarrow> []) @ polyPathsIfDifferent plan)))))) @ [34]"
proof -
  let ?H = "planName plan @ js ''['' @ digits (step_id plan) @ [8712] @ digits (layerPlan_id plan)"
  from head_chars [OF assms(2)]
  have "\<forall>c \<in> set ?H. \<not> is_space c \<and> c \<noteq> 27 \<and> c \<noteq> 155 \<and> c \<noteq> 34 \<and> c \<noteq> 35 \<and> c \<noteq> 60 \<and> c \<noteq> 62"
    by blast
  from mermaidEscape_head [OF assms(1) this] show ?thesis
    by (simp add: planString_def js_def)
qed


subsection \<open>The rest of a label\<close>

lemma squish_escape_free: "escape_free m \<Longrightarrow> escape_free (squish m a b)"
  by (auto simp: squish_def escape_free_def js_def dest: in_set_takeD in_set_dropD)

lemma squish_nonempty: "m \<noteq> [] \<Longrightarrow> squish m a b \<noteq> []"
  by (simp add: squish_def js_def)

lemma meta_render:
  assumes se: "strips_escapes strip"
    and mc: "case toStringMeta plan of None \<Rightarrow> True | Some m \<Rightarrow> escape_free m"
    and mp: "mp = (case plan_meta concise strip plan of
                     Some meta \<Rightarrow> if meta \<noteq> [] then [10] @ js ''<'' @ meta @ js ''>'' else []
                   | None \<Rightarrow> [])"
    and M: "M = (case toStringMeta plan of
                   None \<Rightarrow> []
                 | Some m \<Rightarrow>
                     if m = [] then []
                     else js ''<br />'' @ [5176] @
                          replace_newlines (map lookalike (if concise then squish m 8 8 else m)) @
                          [5171])"
  shows "(mp = [] \<or> \<not> is_space (last mp)) \<and> escape_free mp \<and>
         (\<forall>rest. replace_newlines (map lookalike (mp @ rest)) =
                   M @ replace_newlines (map lookalike rest))"
proof (cases "toStringMeta plan")
  case None
  then have "mp = []" "M = []" by (simp_all add: mp M plan_meta_def)
  then show ?thesis by (simp add: escape_free_def)
next
  case (Some m)
  with mc have ef: "escape_free m" by simp
  from strips_escapes_id [OF se ef] have sm: "strip m = m" .
  show ?thesis
  proof (cases "m = []")
    case True
    with Some sm have "mp = []" "M = []" by (simp_all add: mp M plan_meta_def)
    then show ?thesis by (simp add: escape_free_def)
  next
    case False
    let ?m = "if concise then squish m 8 8 else m"
    have ne: "?m \<noteq> []" using False by (simp add: squish_nonempty)
    have ef': "escape_free ?m" using ef by (simp add: squish_escape_free)
    from Some sm False squish_nonempty [OF False, of 8 8] have mpv: "mp = 10 # 60 # ?m @ [62]"
      by (simp add: mp plan_meta_def js_def)
    from Some False have Mv: "M = js ''<br />'' @ 5176 # replace_newlines (map lookalike ?m) @ [5171]"
      by (simp add: M)
    have 1: "\<not> is_space (last mp)" by (simp add: mpv is_space_def)
    have 2: "escape_free mp" using ef' by (simp add: mpv escape_free_def)
    have 3: "replace_newlines (map lookalike (mp @ rest)) =
             M @ replace_newlines (map lookalike rest)" for rest
    proof -
      have "map lookalike (mp @ rest) = 10 # 5176 # map lookalike ?m @ 5171 # map lookalike rest"
        by (simp add: mpv lookalike_def)
      moreover have "replace_newlines (map lookalike ?m @ 5171 # map lookalike rest) =
          replace_newlines (map lookalike ?m) @ 5171 # replace_newlines (map lookalike rest)"
        by (rule replace_newlines_split) simp_all
      ultimately show ?thesis
        by (simp add: Mv replace_newlines_line_feed replace_newlines_cons)
    qed
    from 1 2 3 show ?thesis by blast
  qed
qed

lemma polyPathsIfDifferent_cases:
  "polyPathsIfDifferent plan =
     (if \<exists>d. dependencies plan = [d] \<and> pp (polymorphicPaths d) = pp (polymorphicPaths plan)
      then [] else 10 # pp (polymorphicPaths plan))"
proof (cases "dependencies plan")
  case Nil
  then show ?thesis by (simp add: polyPathsIfDifferent_def)
next
  case (Cons d ds)
  then show ?thesis by (cases ds) (simp_all add: polyPathsIfDifferent_def)
qed

lemma tail_render:
  assumes se: "strips_escapes strip"
    and mc: "case toStringMeta plan of None \<Rightarrow> True | Some m \<Rightarrow> escape_free m"
    and pc: "polymorphicPaths plan = [[]] \<or> list_all plain_path (polymorphicPaths plan)"
  shows "replace_newlines (map lookalike (strip (rev (dropWhile is_space (rev
           ((case plan_meta concise strip plan of
               Some meta \<Rightarrow> if meta \<noteq> [] then [10] @ js ''<'' @ meta @ js ''>'' else []
             | None \<Rightarrow> []) @ polyPathsIfDifferent plan)))))) =
         (case toStringMeta plan of
            None \<Rightarrow> []
          | Some m \<Rightarrow>
              if m = [] then []
              else js ''<br />'' @ [5176] @
                   replace_newlines (map lookalike (if concise then squish m 8 8 else m)) @
                   [5171]) @
         (if (\<exists>d. dependencies plan = [d] \<and> pp (polymorphicPaths d) = pp (polymorphicPaths plan)) \<or>
             polymorphicPaths plan = [[]]
          then []
          else concat (map (\<lambda>p. js ''<br />'' @ map lookalike p) (polymorphicPaths plan)))"
proof -
  let ?Q = "polymorphicPaths plan"
  let ?omitted = "\<exists>d. dependencies plan = [d] \<and> pp (polymorphicPaths d) = pp ?Q"
  let ?P = "if ?omitted \<or> ?Q = [[]] then []
            else concat (map (\<lambda>p. js ''<br />'' @ map lookalike p) ?Q)"
  define mp where "mp = (case plan_meta concise strip plan of
                     Some meta \<Rightarrow> if meta \<noteq> [] then [10] @ js ''<'' @ meta @ js ''>'' else []
                   | None \<Rightarrow> [])"
  define M where "M = (case toStringMeta plan of
                   None \<Rightarrow> []
                 | Some m \<Rightarrow>
                     if m = [] then []
                     else js ''<br />'' @ [5176] @
                          replace_newlines (map lookalike (if concise then squish m 8 8 else m)) @
                          [5171])"
  from meta_render [OF se mc mp_def M_def]
  have last: "mp = [] \<or> \<not> is_space (last mp)"
    and ef: "escape_free mp"
    and rn: "\<And>rest. replace_newlines (map lookalike (mp @ rest)) =
               M @ replace_newlines (map lookalike rest)"
    by blast+
  have te1: "rev (dropWhile is_space (rev mp)) = mp" using last by (rule trim_end_id)
  have te2: "rev (dropWhile is_space (rev (mp @ [10]))) = mp" using last by (rule trim_end_line_feed)
  have "strip mp = mp" using se ef by (rule strips_escapes_id)
  moreover have "replace_newlines (map lookalike (mp @ [])) = M @ replace_newlines (map lookalike [])"
    by (rule rn)
  ultimately have core: "replace_newlines (map lookalike (strip mp)) = M" by simp
  have main: "replace_newlines (map lookalike (strip (rev (dropWhile is_space (rev
                (mp @ polyPathsIfDifferent plan)))))) = M @ ?P"
  proof (cases ?omitted)
    case True
    then have "polyPathsIfDifferent plan = []" by (simp add: polyPathsIfDifferent_cases)
    with True show ?thesis by (simp only: append_Nil2 te1 core if_True simp_thms)
  next
    case False
    then have pd: "polyPathsIfDifferent plan = 10 # pp ?Q" by (simp add: polyPathsIfDifferent_cases)
    show ?thesis
    proof (cases "?Q = [[]] \<or> ?Q = []")
      case True
      then have "pp ?Q = []" by (auto simp: pp_def)
      then have "mp @ polyPathsIfDifferent plan = mp @ [10]" by (simp add: pd)
      moreover from True have "?P = []" by auto
      ultimately show ?thesis by (simp only: te2 core append_Nil2)
    next
      case ne: False
      with pc have all: "list_all plain_path ?Q" and Q: "?Q \<noteq> []" by blast+
      from all have "[] \<notin> set ?Q" by (auto simp: list_all_iff plain_path_def)
      then have ppQ: "pp ?Q = join_lines ?Q" by (simp add: pp_def)
      from join_lines_last [OF Q all]
      have jl: "join_lines ?Q \<noteq> []" "\<not> is_space (last (join_lines ?Q))" by blast+
      let ?t = "mp @ 10 # join_lines ?Q"
      have t1: "rev (dropWhile is_space (rev ?t)) = ?t" using jl by (intro trim_end_id) simp
      have "escape_free ?t"
        using ef join_lines_escape_free [OF all] by (simp add: escape_free_def)
      then have t2: "strip ?t = ?t" using se by (intro strips_escapes_id)
      have t3: "replace_newlines (map lookalike ?t) =
          M @ replace_newlines (map lookalike (10 # join_lines ?Q))"
        by (rule rn)
      have t: "mp @ polyPathsIfDifferent plan = ?t" by (simp add: pd ppQ)
      from False ne have "\<not> (?omitted \<or> ?Q = [[]])" by blast
      then have P: "?P = concat (map (\<lambda>p. js ''<br />'' @ map lookalike p) ?Q)"
        by (rule if_not_P)
      show ?thesis
        unfolding t t1 t2 t3 P render_paths [OF Q all] ..
    qed
  qed
  then show ?thesis unfolding mp_def M_def .
qed


subsection \<open>Reading a node line\<close>

lemma braces_first_no_quote: "34 \<notin> set (fst (braces plan))"
  by (simp add: braces_def js_def)

lemma node_line_shape:
  assumes "strips_escapes strip" "identifier_like (constructor_name plan)"
  shows "\<exists>rest. 34 \<notin> set rest \<and>
           node_line concise strip plan =
             js ''    '' @ planName plan @ digits (step_id plan) @ fst (braces plan) @ [34] @
             planName plan @ js ''['' @ digits (step_id plan) @ [8712] @
             digits (layerPlan_id plan) @ js '']'' @ rest @ [34] @
             snd (braces plan) @ js '':::'' @ planClass plan"
proof -
  let ?rest = "replace_newlines (map lookalike (strip (rev (dropWhile is_space (rev
           ((case plan_meta concise strip plan of
               Some meta \<Rightarrow> if meta \<noteq> [] then [10] @ js ''<'' @ meta @ js ''>'' else []
             | None \<Rightarrow> []) @ polyPathsIfDifferent plan))))))"
  have "34 \<notin> set ?rest" by (intro replace_newlines_no_quote lookalike_not_quote)
  moreover have "node_line concise strip plan =
             js ''    '' @ planName plan @ digits (step_id plan) @ fst (braces plan) @ [34] @
             planName plan @ js ''['' @ digits (step_id plan) @ [8712] @
             digits (layerPlan_id plan) @ js '']'' @ ?rest @ [34] @
             snd (braces plan) @ js '':::'' @ planClass plan"
    unfolding node_line_def planNode_def label_render [OF assms] by simp
  ultimately show ?thesis by blast
qed

lemma node_line_read:
  assumes se: "strips_escapes strip" and se': "strips_escapes strip'"
    and n: "identifier_like (constructor_name plan)"
    and n': "identifier_like (constructor_name plan')"
    and eq: "node_line concise strip plan = node_line concise' strip' plan'"
  shows "planName plan = planName plan' \<and> step_id plan = step_id plan' \<and>
         layerPlan_id plan = layerPlan_id plan' \<and> fst (braces plan) = fst (braces plan')"
proof -
  from node_line_shape [OF se n, of concise] obtain r where
    l: "node_line concise strip plan =
          js ''    '' @ planName plan @ digits (step_id plan) @ fst (braces plan) @ [34] @
          planName plan @ js ''['' @ digits (step_id plan) @ [8712] @
          digits (layerPlan_id plan) @ js '']'' @ r @ [34] @
          snd (braces plan) @ js '':::'' @ planClass plan"
    by blast
  from node_line_shape [OF se' n', of concise'] obtain r' where
    l': "node_line concise' strip' plan' =
          js ''    '' @ planName plan' @ digits (step_id plan') @ fst (braces plan') @ [34] @
          planName plan' @ js ''['' @ digits (step_id plan') @ [8712] @
          digits (layerPlan_id plan') @ js '']'' @ r' @ [34] @
          snd (braces plan') @ js '':::'' @ planClass plan'"
    by blast
  let ?A = "js ''    '' @ planName plan @ digits (step_id plan) @ fst (braces plan)"
  let ?A' = "js ''    '' @ planName plan' @ digits (step_id plan') @ fst (braces plan')"
  let ?X = "digits (step_id plan) @ [8712] @ digits (layerPlan_id plan) @ js '']'' @
            (r @ [34] @ snd (braces plan) @ js '':::'' @ planClass plan)"
  let ?X' = "digits (step_id plan') @ [8712] @ digits (layerPlan_id plan') @ js '']'' @
            (r' @ [34] @ snd (braces plan') @ js '':::'' @ planClass plan')"
  have q: "34 \<notin> set (js ''    '' @ planName p @ digits a @ fst (braces p))"
    if "identifier_like (constructor_name p)" for p a
    using identifier_like_chars [OF that, of 34] digits_range [of 34 a] braces_first_no_quote [of p]
    by (auto simp: js_def)
  have b: "91 \<notin> set (planName p)" if "identifier_like (constructor_name p)" for p
    using identifier_like_chars [OF that, of 91] by blast
  from eq have "?A @ 34 # (planName plan @ 91 # ?X) = ?A' @ 34 # (planName plan' @ 91 # ?X')"
    unfolding l l' by (simp add: js_def)
  from split_at_separator [OF this q [OF n] q [OF n']]
  have A: "?A = ?A'" and B: "planName plan @ 91 # ?X = planName plan' @ 91 # ?X'" by blast+
  from split_at_separator [OF B b [OF n] b [OF n']]
  have N: "planName plan = planName plan'" and X: "?X = ?X'" by blast+
  from ids_of_label [OF X]
  have I: "step_id plan = step_id plan'" "layerPlan_id plan = layerPlan_id plan'" by blast+
  from A have "fst (braces plan) = fst (braces plan')" unfolding N I by simp
  with N I show ?thesis by blast
qed

lemma braces_safe:
  "\<not> is_ItemStep plan \<Longrightarrow> fst (braces plan) = js ''[['' \<longleftrightarrow> \<not> isSyncAndSafe plan"
  by (simp add: braces_def js_def)

lemmas diagram_eval =
  node_line_def planNode_def planName_def planString_def plan_meta_def polyPathsIfDifferent_def
  pp_def braces_def planClass_def mermaidEscape_def already_safe_def safe_char_def trim_def
  lookalike_def is_space_def squish_def js_def
  user_dep_def user_step_def post_dep_def post_step_def item_step_def select_step_def
  query_step_def unbatched_step_def escape_free_def identifier_like_def plain_path_def


subsection \<open>What a node says about its step\<close>

text \<open>
  C5, as stated: every step node is annotated with the polymorphic-path set of the step.
  Two steps with different paths, each with one dependency of the same paths as its own,
  have the same node line, which shows no path at all.
\<close>

theorem node_line_counterexample:
  "node_line False (\<lambda>s. s) user_step = node_line False (\<lambda>s. s) post_step \<and>
   polymorphicPaths user_step \<noteq> polymorphicPaths post_step \<and>
   node_line False (\<lambda>s. s) user_step =
     js ''    Access1['' @ [34] @ js ''Access[1'' @ [8712] @ js ''0]'' @ [34] @ js '']:::plan''"
  by (simp add: diagram_eval digits_small)

text \<open>
  C5, amended: for a \<^verbatim>\<open>stripAnsi\<close> that leaves the text in front of the first escape
  character as it is, and a step whose class name is an identifier, the node line of the
  step is four spaces, the name, the id, the left bracket, the label between quotation
  marks, the right bracket, \<^verbatim>\<open>:::\<close> and the class; the label begins with \<^verbatim>\<open>Name[id\<close>, U+2208,
  \<^verbatim>\<open>layerPlanId]\<close> and holds no quotation mark. When moreover the meta has no escape character
  and the paths are the empty path alone or non-empty paths without white space and
  escape characters, the rest of the label is the meta after \<^verbatim>\<open><br />\<close> between U+1438 and
  U+1433 (squished in a concise diagram; nothing without a meta or for an empty one), then
  every path after a \<^verbatim>\<open><br />\<close> of its own, unless the step has exactly one dependency whose paths print the same or its
  paths are the empty path alone: then the label shows no path. In the meta and the paths
  the number sign, the quotation mark and the angle brackets are replaced by their
  look-alikes, and in the meta a line feed by \<^verbatim>\<open><br />\<close>. Two steps with the same
  node line have the same id and the same layer plan id and, when neither is an item
  step, the same \<^verbatim>\<open>isSyncAndSafe\<close>. A step that is not an item step has the shape \<^verbatim>\<open>[[ ]]\<close>
  exactly when it is not synchronous and safe, and the class \<^verbatim>\<open>unbatchedplan\<close> only when it
  is not; an item step always has the shape \<^verbatim>\<open>[/ \]\<close>. The first call of \<^verbatim>\<open>planId\<close> for a
  step appends this node line to the diagram.
\<close>

theorem node_line_annotations:
  "(strips_escapes strip \<and> identifier_like (constructor_name plan) \<longrightarrow>
      (\<exists>rest. 34 \<notin> set rest \<and>
         node_line concise strip plan =
           js ''    '' @ planName plan @ digits (step_id plan) @ fst (braces plan) @ [34] @
           planName plan @ js ''['' @ digits (step_id plan) @ [8712] @
           digits (layerPlan_id plan) @ js '']'' @ rest @ [34] @
           snd (braces plan) @ js '':::'' @ planClass plan)) \<and>
   (strips_escapes strip \<and> identifier_like (constructor_name plan) \<and>
    (case toStringMeta plan of None \<Rightarrow> True | Some m \<Rightarrow> escape_free m) \<and>
    (polymorphicPaths plan = [[]] \<or> list_all plain_path (polymorphicPaths plan)) \<longrightarrow>
      node_line concise strip plan =
        js ''    '' @ planName plan @ digits (step_id plan) @ fst (braces plan) @ [34] @
        planName plan @ js ''['' @ digits (step_id plan) @ [8712] @
        digits (layerPlan_id plan) @ js '']'' @
        (case toStringMeta plan of
           None \<Rightarrow> []
         | Some m \<Rightarrow>
             if m = [] then []
             else js ''<br />'' @ [5176] @
                  replace_newlines (map lookalike (if concise then squish m 8 8 else m)) @
                  [5171]) @
        (if (\<exists>d. dependencies plan = [d] \<and> pp (polymorphicPaths d) = pp (polymorphicPaths plan)) \<or>
            polymorphicPaths plan = [[]]
         then []
         else concat (map (\<lambda>p. js ''<br />'' @ map lookalike p) (polymorphicPaths plan))) @
        [34] @ snd (braces plan) @ js '':::'' @ planClass plan) \<and>
   (strips_escapes strip \<and> strips_escapes strip' \<and>
    identifier_like (constructor_name plan) \<and> identifier_like (constructor_name plan') \<and>
    node_line concise strip plan = node_line concise' strip' plan' \<longrightarrow>
      step_id plan = step_id plan' \<and> layerPlan_id plan = layerPlan_id plan' \<and>
      (\<not> is_ItemStep plan \<and> \<not> is_ItemStep plan' \<longrightarrow>
         isSyncAndSafe plan = isSyncAndSafe plan')) \<and>
   (\<not> is_ItemStep plan \<longrightarrow>
      (braces plan = (js ''[['', js '']]'') \<longleftrightarrow> \<not> isSyncAndSafe plan)) \<and>
   (is_ItemStep plan \<longrightarrow> braces plan = (js ''[/'', [92] @ js '']'')) \<and>
   (planClass plan = js ''unbatchedplan'' \<longrightarrow> \<not> isSyncAndSafe plan) \<and>
   (planIdMap st (step_id plan) = None \<longrightarrow>
      planId concise strip plan st =
        (planName plan @ digits (step_id plan),
         st\<lparr> planIdMap := (planIdMap st)(step_id plan \<mapsto> planName plan @ digits (step_id plan)),
             graph := graph st @ [node_line concise strip plan] \<rparr>))"
proof (intro conjI impI)
  assume "strips_escapes strip \<and> identifier_like (constructor_name plan)"
  then have "strips_escapes strip" "identifier_like (constructor_name plan)" by blast+
  then show "\<exists>rest. 34 \<notin> set rest \<and>
         node_line concise strip plan =
           js ''    '' @ planName plan @ digits (step_id plan) @ fst (braces plan) @ [34] @
           planName plan @ js ''['' @ digits (step_id plan) @ [8712] @
           digits (layerPlan_id plan) @ js '']'' @ rest @ [34] @
           snd (braces plan) @ js '':::'' @ planClass plan"
    by (rule node_line_shape)
next
  assume a: "strips_escapes strip \<and> identifier_like (constructor_name plan) \<and>
    (case toStringMeta plan of None \<Rightarrow> True | Some m \<Rightarrow> escape_free m) \<and>
    (polymorphicPaths plan = [[]] \<or> list_all plain_path (polymorphicPaths plan))"
  then have se: "strips_escapes strip" and n: "identifier_like (constructor_name plan)"
    and mc: "case toStringMeta plan of None \<Rightarrow> True | Some m \<Rightarrow> escape_free m"
    and pc: "polymorphicPaths plan = [[]] \<or> list_all plain_path (polymorphicPaths plan)"
    by blast+
  show "node_line concise strip plan =
        js ''    '' @ planName plan @ digits (step_id plan) @ fst (braces plan) @ [34] @
        planName plan @ js ''['' @ digits (step_id plan) @ [8712] @
        digits (layerPlan_id plan) @ js '']'' @
        (case toStringMeta plan of
           None \<Rightarrow> []
         | Some m \<Rightarrow>
             if m = [] then []
             else js ''<br />'' @ [5176] @
                  replace_newlines (map lookalike (if concise then squish m 8 8 else m)) @
                  [5171]) @
        (if (\<exists>d. dependencies plan = [d] \<and> pp (polymorphicPaths d) = pp (polymorphicPaths plan)) \<or>
            polymorphicPaths plan = [[]]
         then []
         else concat (map (\<lambda>p. js ''<br />'' @ map lookalike p) (polymorphicPaths plan))) @
        [34] @ snd (braces plan) @ js '':::'' @ planClass plan"
    unfolding node_line_def planNode_def label_render [OF se n] tail_render [OF se mc pc]
    by (simp only: append_assoc)
next
  assume a: "strips_escapes strip \<and> strips_escapes strip' \<and>
    identifier_like (constructor_name plan) \<and> identifier_like (constructor_name plan') \<and>
    node_line concise strip plan = node_line concise' strip' plan'"
  then have "strips_escapes strip" "strips_escapes strip'"
    "identifier_like (constructor_name plan)" "identifier_like (constructor_name plan')"
    "node_line concise strip plan = node_line concise' strip' plan'"
    by blast+
  from node_line_read [OF this]
  have r: "step_id plan = step_id plan'" "layerPlan_id plan = layerPlan_id plan'"
    "fst (braces plan) = fst (braces plan')" by blast+
  show "step_id plan = step_id plan'" by (rule r(1))
  show "layerPlan_id plan = layerPlan_id plan'" by (rule r(2))
  assume "\<not> is_ItemStep plan \<and> \<not> is_ItemStep plan'"
  then have "\<not> is_ItemStep plan" "\<not> is_ItemStep plan'" by blast+
  from braces_safe [OF this(1)] braces_safe [OF this(2)] r(3)
  show "isSyncAndSafe plan = isSyncAndSafe plan'" by simp
next
  assume "\<not> is_ItemStep plan"
  then show "braces plan = (js ''[['', js '']]'') \<longleftrightarrow> \<not> isSyncAndSafe plan"
    by (simp add: braces_def js_def)
next
  assume "is_ItemStep plan"
  then show "braces plan = (js ''[/'', [92] @ js '']'')"
    by (simp add: braces_def)
next
  assume "planClass plan = js ''unbatchedplan''"
  then show "\<not> isSyncAndSafe plan"
    by (simp add: planClass_def js_def split: if_splits)
next
  assume "planIdMap st (step_id plan) = None"
  then show "planId concise strip plan st =
        (planName plan @ digits (step_id plan),
         st\<lparr> planIdMap := (planIdMap st)(step_id plan \<mapsto> planName plan @ digits (step_id plan)),
             graph := graph st @ [node_line concise strip plan] \<rparr>)"
    by (simp add: planId_def planNode_def)
qed


text \<open>
  The samples: a step with the id 12 in the layer plan 3, not safe, with a meta and two
  paths, printed into the empty diagram; a safe step with a long meta in a concise
  diagram; the two steps above that share their node line; an item step; and a step of
  the class \<^verbatim>\<open>unbatchedplan\<close>.
\<close>

theorem node_line_annotations_witness:
  "node_line False (\<lambda>s. s) select_step =
     js ''    PgSelect12[['' @ [34] @ js ''PgSelect[12'' @ [8712] @ js ''3]<br />'' @ [5176] @
     js ''users'' @ [5171] @ js ''<br />'' @ [5171] @ js ''User<br />'' @ [5171] @ js ''Post'' @
     [34] @ js '']]:::plan'' \<and>
   node_line True (\<lambda>s. s) query_step =
     js ''    PgSelect7['' @ [34] @ js ''PgSelect[7'' @ [8712] @ js ''0]<br />'' @ [5176] @
     js ''SELECT i...OM users'' @ [5171] @ [34] @ js '']:::plan'' \<and>
   node_line False (\<lambda>s. s) select_step \<noteq> node_line True (\<lambda>s. s) query_step \<and>
   node_line False (\<lambda>s. s) user_step = node_line False (\<lambda>s. s) post_step \<and>
   step_id user_step = step_id post_step \<and> layerPlan_id user_step = layerPlan_id post_step \<and>
   isSyncAndSafe user_step = isSyncAndSafe post_step \<and>
   \<not> is_ItemStep select_step \<and> \<not> isSyncAndSafe select_step \<and>
   braces select_step = (js ''[['', js '']]'') \<and>
   is_ItemStep item_step \<and> braces item_step = (js ''[/'', [92] @ js '']'') \<and>
   planClass unbatched_step = js ''unbatchedplan'' \<and> \<not> isSyncAndSafe unbatched_step \<and>
   planIdMap empty_printer_state (step_id select_step) = None \<and>
   fst (planId False (\<lambda>s. s) select_step empty_printer_state) = js ''PgSelect12'' \<and>
   graph (snd (planId False (\<lambda>s. s) select_step empty_printer_state)) =
     [node_line False (\<lambda>s. s) select_step]"
proof -
  note inst = node_line_annotations
    [where plan = select_step and concise = False and strip = "\<lambda>s. s"
       and st = empty_printer_state and plan' = query_step and concise' = True
       and strip' = "\<lambda>s. s"]
  note instQ = node_line_annotations
    [where plan = query_step and concise = True and strip = "\<lambda>s. s"]
  note instU = node_line_annotations
    [where plan = user_step and concise = False and strip = "\<lambda>s. s"
       and plan' = post_step and concise' = False and strip' = "\<lambda>s. s"]
  have se: "strips_escapes (\<lambda>s. s)" by (simp add: strips_escapes_def)
  have n: "identifier_like (constructor_name select_step)"
    "identifier_like (constructor_name query_step)"
    "identifier_like (constructor_name user_step)"
    "identifier_like (constructor_name post_step)"
    by (simp_all add: diagram_eval)
  have m: "case toStringMeta select_step of None \<Rightarrow> True | Some m \<Rightarrow> escape_free m"
    "case toStringMeta query_step of None \<Rightarrow> True | Some m \<Rightarrow> escape_free m"
    by (simp_all add: diagram_eval)
  have p: "polymorphicPaths select_step = [[]] \<or> list_all plain_path (polymorphicPaths select_step)"
    "polymorphicPaths query_step = [[]] \<or> list_all plain_path (polymorphicPaths query_step)"
    by (simp_all add: diagram_eval)
  from inst se n(1) m(1) p(1)
  have "node_line False (\<lambda>s. s) select_step =
        js ''    '' @ planName select_step @ digits (step_id select_step) @ fst (braces select_step) @ [34] @
        planName select_step @ js ''['' @ digits (step_id select_step) @ [8712] @
        digits (layerPlan_id select_step) @ js '']'' @
        (case toStringMeta select_step of
           None \<Rightarrow> []
         | Some m \<Rightarrow>
             if m = [] then []
             else js ''<br />'' @ [5176] @
                  replace_newlines (map lookalike (if False then squish m 8 8 else m)) @
                  [5171]) @
        (if (\<exists>d. dependencies select_step = [d] \<and>
                 pp (polymorphicPaths d) = pp (polymorphicPaths select_step)) \<or>
            polymorphicPaths select_step = [[]]
         then []
         else concat (map (\<lambda>p. js ''<br />'' @ map lookalike p) (polymorphicPaths select_step))) @
        [34] @ snd (braces select_step) @ js '':::'' @ planClass select_step"
    by blast
  then have 1: "node_line False (\<lambda>s. s) select_step =
     js ''    PgSelect12[['' @ [34] @ js ''PgSelect[12'' @ [8712] @ js ''3]<br />'' @ [5176] @
     js ''users'' @ [5171] @ js ''<br />'' @ [5171] @ js ''User<br />'' @ [5171] @ js ''Post'' @
     [34] @ js '']]:::plan''"
    by (simp add: select_step_def planName_def braces_def planClass_def lookalike_def js_def digits_small digits_large)
  from instQ se n(2) m(2) p(2)
  have "node_line True (\<lambda>s. s) query_step =
        js ''    '' @ planName query_step @ digits (step_id query_step) @ fst (braces query_step) @ [34] @
        planName query_step @ js ''['' @ digits (step_id query_step) @ [8712] @
        digits (layerPlan_id query_step) @ js '']'' @
        (case toStringMeta query_step of
           None \<Rightarrow> []
         | Some m \<Rightarrow>
             if m = [] then []
             else js ''<br />'' @ [5176] @
                  replace_newlines (map lookalike (if True then squish m 8 8 else m)) @
                  [5171]) @
        (if (\<exists>d. dependencies query_step = [d] \<and>
                 pp (polymorphicPaths d) = pp (polymorphicPaths query_step)) \<or>
            polymorphicPaths query_step = [[]]
         then []
         else concat (map (\<lambda>p. js ''<br />'' @ map lookalike p) (polymorphicPaths query_step))) @
        [34] @ snd (braces query_step) @ js '':::'' @ planClass query_step"
    by blast
  then have 2: "node_line True (\<lambda>s. s) query_step =
     js ''    PgSelect7['' @ [34] @ js ''PgSelect[7'' @ [8712] @ js ''0]<br />'' @ [5176] @
     js ''SELECT i...OM users'' @ [5171] @ [34] @ js '']:::plan''"
    by (simp add: query_step_def planName_def braces_def planClass_def lookalike_def squish_def js_def digits_small)
  have "step_id select_step \<noteq> step_id query_step" by (simp add: select_step_def query_step_def)
  with inst se n(1) n(2)
  have 3: "node_line False (\<lambda>s. s) select_step \<noteq> node_line True (\<lambda>s. s) query_step" by blast
  have 4: "node_line False (\<lambda>s. s) user_step = node_line False (\<lambda>s. s) post_step"
    by (simp add: diagram_eval digits_small)
  have u: "\<not> is_ItemStep user_step" "\<not> is_ItemStep post_step"
    by (simp_all add: user_step_def post_step_def)
  from instU se n(3) n(4) 4 u
  have 5: "step_id user_step = step_id post_step" "layerPlan_id user_step = layerPlan_id post_step"
    "isSyncAndSafe user_step = isSyncAndSafe post_step"
    by blast+
  have a: "\<not> is_ItemStep select_step" "\<not> isSyncAndSafe select_step"
    by (simp_all add: select_step_def)
  have b: "is_ItemStep item_step" by (simp add: item_step_def)
  have c: "planIdMap empty_printer_state (step_id select_step) = None"
    by (simp add: empty_printer_state_def)
  from inst a have 6: "braces select_step = (js ''[['', js '']]'')" by blast
  from node_line_annotations [where plan = item_step] b
  have 7: "braces item_step = (js ''[/'', [92] @ js '']'')" by blast
  from inst c have "planId False (\<lambda>s. s) select_step empty_printer_state =
        (planName select_step @ digits (step_id select_step),
         empty_printer_state\<lparr> planIdMap := (planIdMap empty_printer_state)(step_id select_step \<mapsto> planName select_step @ digits (step_id select_step)),
             graph := graph empty_printer_state @ [node_line False (\<lambda>s. s) select_step] \<rparr>)"
    by blast
  then have 8: "fst (planId False (\<lambda>s. s) select_step empty_printer_state) = js ''PgSelect12''"
    and 9: "graph (snd (planId False (\<lambda>s. s) select_step empty_printer_state)) =
     [node_line False (\<lambda>s. s) select_step]"
    by (simp_all add: select_step_def planName_def js_def digits_small digits_large empty_printer_state_def)
  have k: "planClass unbatched_step = js ''unbatchedplan''"
    by (simp add: unbatched_step_def planClass_def)
  from node_line_annotations [where plan = unbatched_step] k
  have 10: "\<not> isSyncAndSafe unbatched_step" by blast
  from 1 2 3 4 5 a 6 b 7 k 10 c 8 9 show ?thesis by blast
qed

section \<open>Properties of the step graph\<close>

subsection \<open>Creation order and runnable lists\<close>


lemma built_distinct:
  "built K g \<Longrightarrow> distinct (map stepId g) \<and> stepId ` set g \<inter> K = {}"
  by (induction g arbitrary: K) auto

lemma lookup_step_Some:
  "lookup_step g i = Some s \<Longrightarrow> s \<in> set g \<and> stepId s = i"
  unfolding lookup_step_def by (induction g) (auto split: if_splits)

lemma lookup_step_member:
  "distinct (map stepId g) \<Longrightarrow> s \<in> set g \<Longrightarrow> lookup_step g (stepId s) = Some s"
  unfolding lookup_step_def by (induction g) (auto simp: image_iff)

lemma lookup_step_None:
  "lookup_step g i = None \<longleftrightarrow> i \<notin> stepId ` set g"
  unfolding lookup_step_def by (induction g) auto

lemma built_runnable:
  "distinct (map stepId (pre @ g)) \<Longrightarrow> built (stepId ` set pre) g \<Longrightarrow>
   runnable (pre @ g) (stepId ` set pre) (map stepId g)"
proof (induction g arbitrary: pre)
  case Nil
  show ?case by simp
next
  case (Cons s ss)
  have d: "distinct (map stepId ((pre @ [s]) @ ss))" using Cons.prems(1) by simp
  have b: "built (stepId ` set (pre @ [s])) ss" using Cons.prems(2) by simp
  from Cons.IH [OF d b] have r: "runnable (pre @ s # ss) (insert (stepId s) (stepId ` set pre)) (map stepId ss)"
    by simp
  have l: "lookup_step (pre @ s # ss) (stepId s) = Some s"
    by (rule lookup_step_member [OF Cons.prems(1)]) simp
  from Cons.prems(2) r l show ?case by simp
qed

lemma creation_order:
  assumes "valid_graph g"
  shows "execution_order g (map stepId g)"
proof -
  from assms have b: "built {} g" by (simp add: valid_graph_def)
  from built_distinct [OF b] have d: "distinct (map stepId ([] @ g))" by simp
  from built_runnable [OF d] b have "runnable g {} (map stepId g)" by simp
  then show ?thesis by (simp add: execution_order_def)
qed

lemma runnable_distinct:
  "runnable g D xs \<Longrightarrow> distinct xs \<and> set xs \<inter> D = {}"
  by (induction xs arbitrary: D) auto

lemma collect_populated:
  "set ds \<subseteq> dom b \<Longrightarrow> collect b sid ds = Inr (map (\<lambda>d. the (b d)) ds)"
  by (induction ds) auto

lemma runnable_run_order:
  "runnable g D xs \<Longrightarrow> D \<subseteq> dom b \<Longrightarrow>
   \<exists>b'. run_order batched g xs b = Inr b' \<and> dom b' = dom b \<union> set xs"
proof (induction xs arbitrary: D b)
  case Nil
  show ?case by simp
next
  case (Cons i "is")
  from Cons.prems(1) obtain s where s: "lookup_step g i = Some s" "set (dependencyIds s) \<subseteq> D"
    and r: "runnable g (insert i D) is"
    by (auto split: option.splits)
  from lookup_step_Some [OF s(1)] have id: "stepId s = i" by simp
  from s(2) Cons.prems(2) have "set (dependencyIds s) \<subseteq> dom b" by blast
  from collect_populated [OF this]
  have rs: "run_step batched s b =
      Inr (b(i \<mapsto> batched (constructorId s) (equalityKey s) (map (\<lambda>d. the (b d)) (dependencyIds s))))"
    by (simp add: run_step_def id)
  let ?b = "b(i \<mapsto> batched (constructorId s) (equalityKey s) (map (\<lambda>d. the (b d)) (dependencyIds s)))"
  have "insert i D \<subseteq> dom ?b" using Cons.prems(2) by auto
  from Cons.IH [OF r this] obtain b' where "run_order batched g is ?b = Inr b'"
    "dom b' = dom ?b \<union> set is" by blast
  with s(1) rs show ?case by auto
qed

lemma closed_reach:
  "(depends_on g)\<^sup>+\<^sup>+ a b \<Longrightarrow> closed g D \<Longrightarrow> a \<in> D \<Longrightarrow> b \<in> D"
  by (induction rule: tranclp_induct) (auto simp: closed_def)

lemma closed_insert:
  assumes "closed g D" "lookup_step g i = Some s" "set (dependencyIds s) \<subseteq> D"
  shows "closed g (insert i D)"
  using assms unfolding closed_def depends_on_def by auto

lemma reach_from_ready:
  assumes "(depends_on g)\<^sup>+\<^sup>+ x b" "closed g D" "lookup_step g x = Some s" "set (dependencyIds s) \<subseteq> D"
  shows "b \<in> D"
proof -
  from closed_insert [OF assms(2,3,4)] have c: "closed g (insert x D)" .
  from assms(1) show ?thesis
  proof (induction rule: tranclp_induct)
    case (base y)
    with assms(3,4) show ?case by (auto simp: depends_on_def)
  next
    case (step y z)
    with assms(2) show ?case by (auto simp: closed_def)
  qed
qed

lemma runnable_reach:
  "runnable g D (p @ x # q) \<Longrightarrow> closed g D \<Longrightarrow> (depends_on g)\<^sup>+\<^sup>+ x b \<Longrightarrow> b \<in> D \<union> set p"
proof (induction p arbitrary: D)
  case Nil
  then obtain s where "lookup_step g x = Some s" "set (dependencyIds s) \<subseteq> D"
    by (auto split: option.splits)
  from reach_from_ready [OF Nil.prems(3,2) this] show ?case by simp
next
  case (Cons a p)
  from Cons.prems(1) obtain s where s: "lookup_step g a = Some s" "set (dependencyIds s) \<subseteq> D"
    and r: "runnable g (insert a D) (p @ x # q)"
    by (auto split: option.splits)
  from closed_insert [OF Cons.prems(2) s] have "closed g (insert a D)" .
  from Cons.IH [OF r this Cons.prems(3)] show ?case by auto
qed

lemma runnable_swap:
  "runnable g D (us @ a # b # vs) \<Longrightarrow> \<not> depends_on g b a \<Longrightarrow>
   runnable g D (us @ b # a # vs)"
proof (induction us arbitrary: D)
  case Nil
  then show ?case
    by (auto simp: depends_on_def insert_commute split: option.splits)
next
  case (Cons u us)
  then show ?case by (auto split: option.splits)
qed

lemma reorder_step_runnable:
  assumes "reorder_step g xs ys" "runnable g D xs"
  shows "runnable g D ys"
  using assms
proof (induction rule: reorder_step.induct)
  case (swap a b us vs)
  from swap(1) have "\<not> depends_on g b a" by (auto simp: independent_def)
  from runnable_swap [OF swap(2) this] show ?case .
qed

lemma reorder_step_set:
  "reorder_step g xs ys \<Longrightarrow> set ys = set xs"
  by (induction rule: reorder_step.induct) auto

lemma reorder_runnable:
  "(reorder_step g)\<^sup>*\<^sup>* xs ys \<Longrightarrow> runnable g D xs \<Longrightarrow> runnable g D ys"
  by (induction rule: rtranclp_induct) (auto intro: reorder_step_runnable)

lemma reorder_set:
  "(reorder_step g)\<^sup>*\<^sup>* xs ys \<Longrightarrow> set ys = set xs"
  by (induction rule: rtranclp_induct) (auto dest: reorder_step_set)

lemma reorder_step_Cons:
  "reorder_step g xs ys \<Longrightarrow> reorder_step g (y # xs) (y # ys)"
proof (induction rule: reorder_step.induct)
  case (swap a b us vs)
  from reorder_step.swap [OF swap, of "y # us" vs] show ?case by simp
qed

lemma reorder_Cons:
  "(reorder_step g)\<^sup>*\<^sup>* xs ys \<Longrightarrow> (reorder_step g)\<^sup>*\<^sup>* (y # xs) (y # ys)"
  by (induction rule: rtranclp_induct) (auto intro: reorder_step_Cons rtranclp.rtrancl_into_rtrancl)

lemma bubble_to_front:
  "runnable g D (us @ y # vs) \<Longrightarrow> closed g D \<Longrightarrow> lookup_step g y = Some s \<Longrightarrow>
   set (dependencyIds s) \<subseteq> D \<Longrightarrow>
   (reorder_step g)\<^sup>*\<^sup>* (us @ y # vs) (y # us @ vs)"
proof (induction us arbitrary: vs rule: rev_induct)
  case Nil
  show ?case by simp
next
  case (snoc u us)
  have run: "runnable g D (us @ u # y # vs)" using snoc.prems(1) by simp
  from runnable_distinct [OF run] have uD: "u \<notin> D" and uy: "u \<noteq> y" and "y \<notin> set us" by auto
  have "\<not> (depends_on g)\<^sup>+\<^sup>+ y u"
    using reach_from_ready [OF _ snoc.prems(2,3,4)] uD by blast
  moreover have "\<not> (depends_on g)\<^sup>+\<^sup>+ u y"
  proof
    assume "(depends_on g)\<^sup>+\<^sup>+ u y"
    from runnable_reach [OF run snoc.prems(2) this] have "y \<in> D \<union> set us" .
    moreover from runnable_distinct [OF run] have "y \<notin> D" by auto
    ultimately show False using \<open>y \<notin> set us\<close> by blast
  qed
  ultimately have ind: "independent g u y" by (simp add: independent_def)
  from reorder_step.swap [OF ind, of us vs]
  have 1: "reorder_step g (us @ u # y # vs) (us @ y # u # vs)" .
  from reorder_step_runnable [OF 1 run] have "runnable g D (us @ y # u # vs)" .
  from snoc.IH [OF this snoc.prems(2,3,4)]
  have 2: "(reorder_step g)\<^sup>*\<^sup>* (us @ y # u # vs) (y # us @ u # vs)" .
  from 1 2 show ?case by simp
qed

lemma orders_connected:
  "runnable g D xs \<Longrightarrow> runnable g D ys \<Longrightarrow> set xs = set ys \<Longrightarrow> closed g D \<Longrightarrow>
   (reorder_step g)\<^sup>*\<^sup>* xs ys"
proof (induction ys arbitrary: xs D)
  case Nil
  then show ?case by simp
next
  case (Cons y ys)
  from Cons.prems(2) obtain s where s: "lookup_step g y = Some s" "set (dependencyIds s) \<subseteq> D"
    and rys: "runnable g (insert y D) ys" and yD: "y \<notin> D"
    by (auto split: option.splits)
  from Cons.prems(3) have "y \<in> set xs" by auto
  then obtain us vs where xs: "xs = us @ y # vs" by (meson split_list)
  from bubble_to_front [OF Cons.prems(1) [unfolded xs] Cons.prems(4) s]
  have 1: "(reorder_step g)\<^sup>*\<^sup>* xs (y # us @ vs)" by (simp add: xs)
  from reorder_runnable [OF 1 Cons.prems(1)] have "runnable g D (y # us @ vs)" .
  then have r: "runnable g (insert y D) (us @ vs)" by simp
  from runnable_distinct [OF Cons.prems(1)] have dx: "distinct xs" by simp
  from runnable_distinct [OF Cons.prems(2)] have dy: "distinct (y # ys)" by simp
  from dx xs have "y \<notin> set (us @ vs)" by auto
  moreover from dy have "y \<notin> set ys" by simp
  moreover from Cons.prems(3) xs have "insert y (set (us @ vs)) = insert y (set ys)" by auto
  ultimately have eq: "set (us @ vs) = set ys" by (metis insert_ident)
  from closed_insert [OF Cons.prems(4) s] have c: "closed g (insert y D)" .
  from Cons.IH [OF r rys eq c] have "(reorder_step g)\<^sup>*\<^sup>* (us @ vs) ys" .
  from reorder_Cons [OF this] have 2: "(reorder_step g)\<^sup>*\<^sup>* (y # us @ vs) (y # ys)" .
  from 1 2 show ?case by simp
qed

subsection \<open>Reordering does not change the bucket\<close>

lemma run_order_swap:
  "runnable g D (us @ a # c # vs) \<Longrightarrow> D \<subseteq> dom b \<Longrightarrow> \<not> depends_on g c a \<Longrightarrow>
   run_order batched g (us @ a # c # vs) b = run_order batched g (us @ c # a # vs) b"
proof (induction us arbitrary: D b)
  case Nil
  from Nil.prems(1) obtain s t where s: "lookup_step g a = Some s" "set (dependencyIds s) \<subseteq> D"
    and t: "lookup_step g c = Some t" "set (dependencyIds t) \<subseteq> insert a D"
    and ne: "a \<noteq> c" "a \<notin> D" "c \<notin> D"
    by (auto split: option.splits)
  from lookup_step_Some [OF s(1)] lookup_step_Some [OF t(1)]
  have ids: "stepId s = a" "stepId t = c" by simp_all
  from Nil.prems(3) t have nt: "a \<notin> set (dependencyIds t)" by (simp add: depends_on_def)
  with t(2) have tD: "set (dependencyIds t) \<subseteq> D" by blast
  from s(2) ne(3) have ns: "c \<notin> set (dependencyIds s)" by blast
  let ?va = "batched (constructorId s) (equalityKey s) (map (\<lambda>d. the (b d)) (dependencyIds s))"
  let ?vc = "batched (constructorId t) (equalityKey t) (map (\<lambda>d. the (b d)) (dependencyIds t))"
  have sa: "run_step batched s b = Inr (b(a \<mapsto> ?va))"
    using collect_populated [of "dependencyIds s" b a] s(2) Nil.prems(2)
    by (simp add: run_step_def ids subset_trans)
  have tc: "run_step batched t b = Inr (b(c \<mapsto> ?vc))"
    using collect_populated [of "dependencyIds t" b c] tD Nil.prems(2)
    by (simp add: run_step_def ids subset_trans)
  have m1: "map (\<lambda>d. the ((b(a \<mapsto> ?va)) d)) (dependencyIds t) = map (\<lambda>d. the (b d)) (dependencyIds t)"
    using nt by (intro map_cong) auto
  have m2: "map (\<lambda>d. the ((b(c \<mapsto> ?vc)) d)) (dependencyIds s) = map (\<lambda>d. the (b d)) (dependencyIds s)"
    using ns by (intro map_cong) auto
  have tc': "run_step batched t (b(a \<mapsto> ?va)) = Inr (b(a \<mapsto> ?va, c \<mapsto> ?vc))"
  proof -
    have "set (dependencyIds t) \<subseteq> dom (b(a \<mapsto> ?va))" using tD Nil.prems(2) by auto
    from collect_populated [OF this, of c]
    have "collect (b(a \<mapsto> ?va)) c (dependencyIds t) = Inr (map (\<lambda>d. the (b d)) (dependencyIds t))"
      by (simp only: m1)
    then show ?thesis by (simp add: run_step_def ids)
  qed
  have sa': "run_step batched s (b(c \<mapsto> ?vc)) = Inr (b(c \<mapsto> ?vc, a \<mapsto> ?va))"
  proof -
    have "set (dependencyIds s) \<subseteq> dom (b(c \<mapsto> ?vc))" using s(2) Nil.prems(2) by auto
    from collect_populated [OF this, of a]
    have "collect (b(c \<mapsto> ?vc)) a (dependencyIds s) = Inr (map (\<lambda>d. the (b d)) (dependencyIds s))"
      by (simp only: m2)
    then show ?thesis by (simp add: run_step_def ids)
  qed
  have "b(a \<mapsto> ?va, c \<mapsto> ?vc) = b(c \<mapsto> ?vc, a \<mapsto> ?va)"
    using ne(1) by (simp add: fun_upd_twist)
  with s(1) t(1) sa tc sa' tc' show ?case by simp
next
  case (Cons u us)
  from Cons.prems(1) obtain s where s: "lookup_step g u = Some s" "set (dependencyIds s) \<subseteq> D"
    and r: "runnable g (insert u D) (us @ a # c # vs)"
    by (auto split: option.splits)
  from lookup_step_Some [OF s(1)] have id: "stepId s = u" by simp
  let ?b = "b(u \<mapsto> batched (constructorId s) (equalityKey s) (map (\<lambda>d. the (b d)) (dependencyIds s)))"
  have rs: "run_step batched s b = Inr ?b"
    using collect_populated [of "dependencyIds s" b u] s(2) Cons.prems(2)
    by (simp add: run_step_def id subset_trans)
  have "insert u D \<subseteq> dom ?b" using Cons.prems(2) by auto
  from Cons.IH [OF r this Cons.prems(3)]
  have ih: "run_order batched g (us @ a # c # vs) ?b = run_order batched g (us @ c # a # vs) ?b" .
  show ?case by (simp add: s(1) rs ih)
qed

lemma reorder_run_order:
  "(reorder_step g)\<^sup>*\<^sup>* xs ys \<Longrightarrow> runnable g D xs \<Longrightarrow> D \<subseteq> dom b \<Longrightarrow>
   run_order batched g xs b = run_order batched g ys b"
proof (induction rule: rtranclp_induct)
  case base
  show ?case by simp
next
  case (step ys zs)
  from reorder_runnable [OF step.hyps(1) step.prems(1)] have r: "runnable g D ys" .
  from step.hyps(2) have "run_order batched g ys b = run_order batched g zs b"
  proof (cases rule: reorder_step.cases)
    case (swap a c us vs)
    from swap(3) have "\<not> depends_on g c a" by (auto simp: independent_def)
    from run_order_swap [OF r [unfolded swap(1)] step.prems(2) this] swap(1,2)
    show ?thesis by simp
  qed
  with step.IH [OF step.prems] show ?case by simp
qed

subsection \<open>The bucket of a run\<close>

lemma built_deps:
  "built K g \<Longrightarrow> \<forall>t \<in> set g. set (dependencyIds t) \<subseteq> K \<union> stepId ` set g"
  by (induction g arbitrary: K) fastforce+

lemma built_snoc:
  "built K (g @ [s]) \<longleftrightarrow>
     built K g \<and> stepId s \<notin> K \<union> stepId ` set g \<and> set (dependencyIds s) \<subseteq> K \<union> stepId ` set g"
  by (induction g arbitrary: K) auto

lemma valid_graph_snoc:
  "valid_graph (g @ [s]) \<longleftrightarrow>
     valid_graph g \<and> stepId s \<notin> stepId ` set g \<and> set (dependencyIds s) \<subseteq> stepId ` set g"
  by (simp add: valid_graph_def built_snoc)

lemma valid_graph_deps:
  "valid_graph g \<Longrightarrow> t \<in> set g \<Longrightarrow> set (dependencyIds t) \<subseteq> stepId ` set g"
  using built_deps [of "{}" g] by (simp add: valid_graph_def)

lemma valid_graph_distinct: "valid_graph g \<Longrightarrow> distinct (map stepId g)"
  using built_distinct [of "{}" g] by (simp add: valid_graph_def)

lemma map_the_cong:
  "\<forall>d \<in> set ds. b1 d = b2 d \<Longrightarrow> map (\<lambda>d. the (b1 d)) ds = map (\<lambda>d. the (b2 d)) ds"
  by (induction ds) auto

lemma run_creation_order_gen:
  assumes "distinct (map stepId (pre @ suf))"
    and "built (stepId ` set pre) suf"
    and "\<forall>t \<in> set pre. set (dependencyIds t) \<subseteq> stepId ` set pre"
    and "dom b = stepId ` set pre"
    and "\<forall>t \<in> set pre. b (stepId t) =
        Some (batched (constructorId t) (equalityKey t) (map (\<lambda>d. the (b d)) (dependencyIds t)))"
  shows "\<exists>b'. run_order batched (pre @ suf) (map stepId suf) b = Inr b' \<and>
           solution batched (pre @ suf) b'"
  using assms
proof (induction suf arbitrary: pre b)
  case Nil
  then show ?case by (simp add: solution_def)
next
  case (Cons s ss)
  let ?v = "batched (constructorId s) (equalityKey s) (map (\<lambda>d. the (b d)) (dependencyIds s))"
  let ?b = "b(stepId s \<mapsto> ?v)"
  from Cons.prems(2) have fresh: "stepId s \<notin> stepId ` set pre"
    and deps: "set (dependencyIds s) \<subseteq> stepId ` set pre"
    and rest: "built (stepId ` set (pre @ [s])) ss" by simp_all
  have l: "lookup_step (pre @ s # ss) (stepId s) = Some s"
    by (rule lookup_step_member [OF Cons.prems(1)]) simp
  have rs: "run_step batched s b = Inr ?b"
    using collect_populated [of "dependencyIds s" b "stepId s"] deps Cons.prems(4)
    by (simp add: run_step_def)
  have same: "map (\<lambda>d. the (?b d)) (dependencyIds t) = map (\<lambda>d. the (b d)) (dependencyIds t)"
    if "set (dependencyIds t) \<subseteq> stepId ` set pre" for t
    using that fresh by (intro map_the_cong) auto
  have 1: "distinct (map stepId ((pre @ [s]) @ ss))" using Cons.prems(1) by simp
  have 3: "\<forall>t \<in> set (pre @ [s]). set (dependencyIds t) \<subseteq> stepId ` set (pre @ [s])"
    using Cons.prems(3) deps by auto
  have 4: "dom ?b = stepId ` set (pre @ [s])" using Cons.prems(4) by auto
  have 5: "\<forall>t \<in> set (pre @ [s]). ?b (stepId t) =
        Some (batched (constructorId t) (equalityKey t) (map (\<lambda>d. the (?b d)) (dependencyIds t)))"
  proof
    fix t assume t: "t \<in> set (pre @ [s])"
    show "?b (stepId t) =
        Some (batched (constructorId t) (equalityKey t) (map (\<lambda>d. the (?b d)) (dependencyIds t)))"
    proof (cases "t \<in> set pre")
      case True
      with fresh have "stepId t \<noteq> stepId s" by (metis imageI)
      moreover from True Cons.prems(3) have "set (dependencyIds t) \<subseteq> stepId ` set pre" by blast
      ultimately show ?thesis using Cons.prems(5) True by (simp only: same) simp
    next
      case False
      with t have "t = s" by simp
      then show ?thesis using deps by (simp only: same) simp
    qed
  qed
  from Cons.IH [OF 1 rest 3 4 5]
  have "\<exists>b'. run_order batched (pre @ s # ss) (map stepId ss) ?b = Inr b' \<and>
      solution batched (pre @ s # ss) b'"
    by (simp only: append_assoc append_Cons append_Nil)
  then obtain b' where run: "run_order batched (pre @ s # ss) (map stepId ss) ?b = Inr b'"
    and sol: "solution batched (pre @ s # ss) b'"
    by blast
  show ?case using sol by (simp add: l rs run)
qed

lemma run_creation_order:
  assumes "valid_graph g"
  shows "\<exists>b. run_order batched g (map stepId g) Map.empty = Inr b \<and> solution batched g b"
  using run_creation_order_gen [of "[]" g Map.empty batched] assms valid_graph_distinct [OF assms]
  by (simp add: valid_graph_def)

lemma solution_unique_gen:
  assumes "built (stepId ` set pre) suf"
    and "solution batched (pre @ suf) b1" "solution batched (pre @ suf) b2"
    and "\<forall>i \<in> stepId ` set pre. b1 i = b2 i"
  shows "\<forall>i \<in> stepId ` set (pre @ suf). b1 i = b2 i"
  using assms
proof (induction suf arbitrary: pre)
  case Nil
  then show ?case by simp
next
  case (Cons s ss)
  from Cons.prems(1) have deps: "set (dependencyIds s) \<subseteq> stepId ` set pre"
    and rest: "built (stepId ` set (pre @ [s])) ss" by simp_all
  from deps Cons.prems(4)
  have "map (\<lambda>d. the (b1 d)) (dependencyIds s) = map (\<lambda>d. the (b2 d)) (dependencyIds s)"
    by (intro map_the_cong) auto
  with Cons.prems(2,3) have "b1 (stepId s) = b2 (stepId s)" by (simp add: solution_def)
  with Cons.prems(4) have agree: "\<forall>i \<in> stepId ` set (pre @ [s]). b1 i = b2 i" by auto
  from Cons.IH [of "pre @ [s]"] rest Cons.prems(2,3) agree show ?case by simp
qed

lemma solution_unique:
  assumes "valid_graph g" "solution batched g b1" "solution batched g b2"
  shows "b1 = b2"
proof
  fix i
  from solution_unique_gen [of "[]" g batched b1 b2] assms
  have agree: "\<forall>i \<in> stepId ` set g. b1 i = b2 i" by (simp add: valid_graph_def)
  show "b1 i = b2 i"
  proof (cases "i \<in> stepId ` set g")
    case True
    with agree show ?thesis by blast
  next
    case False
    with assms(2,3) have "i \<notin> dom b1" "i \<notin> dom b2" by (simp_all add: solution_def)
    then show ?thesis by (simp add: domIff)
  qed
qed

lemma solution_prefix:
  assumes "valid_graph (k @ [s])" "solution batched (k @ [s]) b"
  shows "solution batched k (b |` (stepId ` set k))"
proof -
  from assms(1) have v: "valid_graph k" by (simp add: valid_graph_snoc)
  have "dom (b |` (stepId ` set k)) = stepId ` set k"
    using assms(2) by (auto simp: solution_def)
  moreover have "(b |` (stepId ` set k)) (stepId t) =
      Some (batched (constructorId t) (equalityKey t)
        (map (\<lambda>d. the ((b |` (stepId ` set k)) d)) (dependencyIds t)))" if t: "t \<in> set k" for t
  proof -
    from valid_graph_deps [OF v t]
    have m: "map (\<lambda>d. the ((b |` (stepId ` set k)) d)) (dependencyIds t) =
        map (\<lambda>d. the (b d)) (dependencyIds t)"
      by (intro map_the_cong) auto
    from t have "(b |` (stepId ` set k)) (stepId t) = b (stepId t)" by simp
    moreover from assms(2) t have "b (stepId t) =
        Some (batched (constructorId t) (equalityKey t) (map (\<lambda>d. the (b d)) (dependencyIds t)))"
      by (simp add: solution_def)
    ultimately show ?thesis by (simp only: m)
  qed
  ultimately show ?thesis by (simp add: solution_def)
qed

subsection \<open>The deduplication pass\<close>

lemma irredundant_snoc:
  "irredundant (xs @ [s]) \<longleftrightarrow> irredundant xs \<and> (\<forall>k \<in> set xs. \<not> interchangeable k s)"
  by (induction xs) auto

lemma irredundant_append_Cons:
  "irredundant (pre @ s # ss) \<Longrightarrow> \<forall>k \<in> set pre. \<not> interchangeable k s"
  by (induction pre) auto

lemma deduplicate_step_irredundant:
  "irredundant (survivors st) \<Longrightarrow> irredundant (survivors (deduplicate_step st s))"
  by (auto simp: deduplicate_step_def Let_def irredundant_snoc find_None_iff split: option.splits)

lemma foldl_deduplicate_irredundant:
  "irredundant (survivors st) \<Longrightarrow> irredundant (survivors (foldl deduplicate_step st g))"
  by (induction g arbitrary: st) (simp_all add: deduplicate_step_irredundant)

lemma resolve_empty: "resolve Map.empty d = d"
  by (simp add: resolve_def)

lemma second_pass:
  "irredundant (pre @ ss) \<Longrightarrow>
   foldl deduplicate_step \<lparr> survivors = pre, replacements = Map.empty \<rparr> ss =
     \<lparr> survivors = pre @ ss, replacements = Map.empty \<rparr>"
proof (induction ss arbitrary: pre)
  case Nil
  show ?case by simp
next
  case (Cons s ss)
  from irredundant_append_Cons [OF Cons.prems]
  have "find (\<lambda>k. interchangeable k s) pre = None" by (simp add: find_None_iff)
  then have "deduplicate_step \<lparr> survivors = pre, replacements = Map.empty \<rparr> s =
      \<lparr> survivors = pre @ [s], replacements = Map.empty \<rparr>"
    by (simp add: deduplicate_step_def resolve_empty [abs_def])
  moreover have "irredundant ((pre @ [s]) @ ss)" using Cons.prems by simp
  ultimately show ?case using Cons.IH [of "pre @ [s]"] by simp
qed

lemma deduplicate_twice: "deduplicate (deduplicate g) = deduplicate g"
proof -
  have "irredundant (deduplicate g)"
    unfolding deduplicate_def deduplicate_pass_def
    by (rule foldl_deduplicate_irredundant) simp
  then have "irredundant ([] @ deduplicate g)" by simp
  from second_pass [OF this] show ?thesis
    by (simp add: deduplicate_def [of "deduplicate g"] deduplicate_pass_def)
qed

lemma dom_guarded:
  "(\<And>i. i \<in> A \<Longrightarrow> f i \<in> dom b) \<Longrightarrow> dom (\<lambda>i. if i \<in> A then b (f i) else None) = A"
  by (auto simp: domIff split: if_splits)

lemma deduplicate_pass_snoc:
  "deduplicate_pass (g @ [s]) = deduplicate_step (deduplicate_pass g) s"
  by (simp add: deduplicate_pass_def)

lemma deduplicate_pass_invariant:
  assumes "valid_graph g"
  shows "valid_graph (survivors (deduplicate_pass g)) \<and>
    stepId ` set (survivors (deduplicate_pass g)) \<subseteq> stepId ` set g \<and>
    dom (replacements (deduplicate_pass g)) \<subseteq> stepId ` set g \<and>
    dom (replacements (deduplicate_pass g)) \<inter> stepId ` set (survivors (deduplicate_pass g)) = {} \<and>
    (\<forall>i \<in> stepId ` set g.
       resolve (replacements (deduplicate_pass g)) i \<in> stepId ` set (survivors (deduplicate_pass g))) \<and>
    (\<forall>b'. solution batched (survivors (deduplicate_pass g)) b' \<longrightarrow>
       solution batched g
         (\<lambda>i. if i \<in> stepId ` set g then b' (resolve (replacements (deduplicate_pass g)) i) else None))"
  using assms
proof (induction g rule: rev_induct)
  case Nil
  show ?case by (simp add: deduplicate_pass_def valid_graph_def solution_def)
next
  case (snoc s g)
  let ?st = "deduplicate_pass g"
  let ?k = "survivors ?st"
  let ?r = "replacements ?st"
  let ?ids = "stepId ` set g"
  from snoc.prems have vg: "valid_graph g" and fresh: "stepId s \<notin> ?ids"
    and deps: "set (dependencyIds s) \<subseteq> ?ids"
    by (simp_all add: valid_graph_snoc)
  note ih = snoc.IH [OF vg]
  from ih have vk: "valid_graph ?k" by (elim conjE)
  from ih have sub: "stepId ` set ?k \<subseteq> ?ids" by (elim conjE)
  from ih have dr: "dom ?r \<subseteq> ?ids" by (elim conjE)
  from ih have disj: "dom ?r \<inter> stepId ` set ?k = {}" by (elim conjE)
  from ih have res: "\<forall>i \<in> ?ids. resolve ?r i \<in> stepId ` set ?k" by (elim conjE)
  from ih have sol0: "\<forall>b'. solution batched ?k b' \<longrightarrow>
       solution batched g (\<lambda>i. if i \<in> ?ids then b' (resolve ?r i) else None)" by (elim conjE)
  have sol: "solution batched g (\<lambda>i. if i \<in> ?ids then b' (resolve ?r i) else None)"
    if "solution batched ?k b'" for b'
    using sol0 that by blast
  let ?s' = "s\<lparr> dependencyIds := map (resolve ?r) (dependencyIds s) \<rparr>"
  have deps': "set (dependencyIds ?s') \<subseteq> stepId ` set ?k" using deps res by auto
  have rs: "resolve ?r (stepId s) = stepId s"
    using fresh dr by (auto simp: resolve_def domIff split: option.splits)
  show ?case
  proof (cases "find (\<lambda>k. interchangeable k ?s') ?k")
    case None
    then have st: "deduplicate_pass (g @ [s]) = ?st\<lparr> survivors := ?k @ [?s'] \<rparr>"
      by (simp add: deduplicate_pass_snoc deduplicate_step_def)
    have v': "valid_graph (?k @ [?s'])"
      using vk fresh sub deps' by (auto simp: valid_graph_snoc)
    have solg: "solution batched (g @ [s])
         (\<lambda>i. if i \<in> stepId ` set (g @ [s]) then b' (resolve ?r i) else None)"
      if b': "solution batched (?k @ [?s']) b'" for b'
    proof -
      let ?B = "\<lambda>i. if i \<in> stepId ` set (g @ [s]) then b' (resolve ?r i) else None"
      let ?bk = "b' |` (stepId ` set ?k)"
      let ?Bg = "\<lambda>i. if i \<in> ?ids then ?bk (resolve ?r i) else None"
      from sol [OF solution_prefix [OF v' b']] have B0: "solution batched g ?Bg" .
      have agree: "?B i = ?Bg i" if "i \<in> ?ids" for i
        using that res by auto
      have domB: "dom ?B = stepId ` set (g @ [s])"
      proof -
        have in_dom: "resolve ?r i \<in> dom b'" if "i \<in> stepId ` set (g @ [s])" for i
          using that res rs b' by (auto simp: solution_def)
        show ?thesis by (rule dom_guarded) (rule in_dom)
      qed
      have eqn: "?B (stepId t) = Some (batched (constructorId t) (equalityKey t)
          (map (\<lambda>d. the (?B d)) (dependencyIds t)))" if t: "t \<in> set (g @ [s])" for t
      proof (cases "t \<in> set g")
        case True
        from valid_graph_deps [OF vg True] agree
        have m: "map (\<lambda>d. the (?B d)) (dependencyIds t) = map (\<lambda>d. the (?Bg d)) (dependencyIds t)"
          by (intro map_the_cong) blast
        from True have e: "?B (stepId t) = ?Bg (stepId t)" by (intro agree) simp
        from B0 True have "?Bg (stepId t) = Some (batched (constructorId t) (equalityKey t)
            (map (\<lambda>d. the (?Bg d)) (dependencyIds t)))"
          unfolding solution_def by blast
        then show ?thesis by (simp only: e m)
      next
        case False
        with t have ts: "t = s" by simp
        from b' have "b' (stepId ?s') = Some (batched (constructorId ?s') (equalityKey ?s')
            (map (\<lambda>d. the (b' d)) (dependencyIds ?s')))"
          by (simp add: solution_def)
        then have 1: "b' (stepId s) = Some (batched (constructorId s) (equalityKey s)
            (map (\<lambda>d. the (b' (resolve ?r d))) (dependencyIds s)))"
          by (simp add: comp_def)
        have m: "map (\<lambda>d. the (?B d)) (dependencyIds s) =
            map (\<lambda>d. the (b' (resolve ?r d))) (dependencyIds s)"
          using deps by (intro map_the_cong) auto
        have e: "?B (stepId s) = b' (stepId s)" using rs by simp
        show ?thesis unfolding ts e m by (rule 1)
      qed
      from domB eqn show ?thesis by (simp only: solution_def) blast
    qed
    have f1: "stepId ` set (?k @ [?s']) \<subseteq> stepId ` set (g @ [s])" using sub by auto
    have f2: "dom ?r \<subseteq> stepId ` set (g @ [s])" using dr by auto
    have f3: "dom ?r \<inter> stepId ` set (?k @ [?s']) = {}" using disj dr fresh by auto
    have f4: "\<forall>i \<in> stepId ` set (g @ [s]). resolve ?r i \<in> stepId ` set (?k @ [?s'])"
      using res rs by auto
    have sv: "survivors (deduplicate_pass (g @ [s])) = ?k @ [?s']"
      and rp: "replacements (deduplicate_pass (g @ [s])) = ?r"
      by (simp_all add: st)
    show ?thesis unfolding sv rp
      by (intro conjI allI impI v' f1 f2 f3 f4 solg) assumption
  next
    case (Some k)
    then have st: "deduplicate_pass (g @ [s]) =
        ?st\<lparr> replacements := ?r(stepId s \<mapsto> stepId k) \<rparr>"
      by (simp add: deduplicate_pass_snoc deduplicate_step_def)
    let ?r' = "?r(stepId s \<mapsto> stepId k)"
    from Some have k: "k \<in> set ?k" and ik: "interchangeable k ?s'"
      by (auto simp: find_Some_iff in_set_conv_nth)
    have res_old: "resolve ?r' i = resolve ?r i" if "i \<in> ?ids" for i
    proof -
      from that fresh have "i \<noteq> stepId s" by blast
      then show ?thesis by (simp add: resolve_def)
    qed
    have res_new: "resolve ?r' (stepId s) = stepId k" by (simp add: resolve_def)
    have solg: "solution batched (g @ [s])
         (\<lambda>i. if i \<in> stepId ` set (g @ [s]) then b' (resolve ?r' i) else None)"
      if b': "solution batched ?k b'" for b'
    proof -
      let ?B = "\<lambda>i. if i \<in> stepId ` set (g @ [s]) then b' (resolve ?r' i) else None"
      let ?Bg = "\<lambda>i. if i \<in> ?ids then b' (resolve ?r i) else None"
      from sol [OF b'] have B0: "solution batched g ?Bg" .
      have agree: "?B i = ?Bg i" if "i \<in> ?ids" for i
        using that res_old by auto
      have domB: "dom ?B = stepId ` set (g @ [s])"
      proof -
        have in_dom: "resolve ?r' i \<in> dom b'" if "i \<in> stepId ` set (g @ [s])" for i
          using that res res_old res_new k b' by (auto simp: solution_def)
        show ?thesis by (rule dom_guarded) (rule in_dom)
      qed
      have eqn: "?B (stepId t) = Some (batched (constructorId t) (equalityKey t)
          (map (\<lambda>d. the (?B d)) (dependencyIds t)))" if t: "t \<in> set (g @ [s])" for t
      proof (cases "t \<in> set g")
        case True
        from valid_graph_deps [OF vg True] agree
        have m: "map (\<lambda>d. the (?B d)) (dependencyIds t) = map (\<lambda>d. the (?Bg d)) (dependencyIds t)"
          by (intro map_the_cong) blast
        from True have e: "?B (stepId t) = ?Bg (stepId t)" by (intro agree) simp
        from B0 True have "?Bg (stepId t) = Some (batched (constructorId t) (equalityKey t)
            (map (\<lambda>d. the (?Bg d)) (dependencyIds t)))"
          unfolding solution_def by blast
        then show ?thesis by (simp only: e m)
      next
        case False
        with t have ts: "t = s" by simp
        from b' k have "b' (stepId k) = Some (batched (constructorId k) (equalityKey k)
            (map (\<lambda>d. the (b' d)) (dependencyIds k)))"
          by (simp add: solution_def)
        with ik have 1: "b' (stepId k) = Some (batched (constructorId s) (equalityKey s)
            (map (\<lambda>d. the (b' (resolve ?r d))) (dependencyIds s)))"
          by (simp add: interchangeable_def comp_def)
        have m: "map (\<lambda>d. the (?B d)) (dependencyIds s) =
            map (\<lambda>d. the (b' (resolve ?r d))) (dependencyIds s)"
          using deps res_old by (intro map_the_cong) auto
        have e: "?B (stepId s) = b' (stepId k)" using res_new by simp
        show ?thesis unfolding ts e m by (rule 1)
      qed
      from domB eqn show ?thesis by (simp only: solution_def) blast
    qed
    have f1: "stepId ` set ?k \<subseteq> stepId ` set (g @ [s])" using sub by auto
    have f2: "dom ?r' \<subseteq> stepId ` set (g @ [s])" using dr by auto
    have f3: "dom ?r' \<inter> stepId ` set ?k = {}" using disj sub fresh by auto
    have f4: "\<forall>i \<in> stepId ` set (g @ [s]). resolve ?r' i \<in> stepId ` set ?k"
      using res res_old res_new k by auto
    have sv: "survivors (deduplicate_pass (g @ [s])) = ?k"
      and rp: "replacements (deduplicate_pass (g @ [s])) = ?r'"
      by (simp_all add: st)
    show ?thesis unfolding sv rp
      by (intro conjI allI impI vk f1 f2 f3 f4 solg) assumption
  qed
qed

subsection \<open>Steps with side effects stay\<close>

lemma survivors_grow:
  "stepId ` set (survivors st) \<subseteq> stepId ` set (survivors (deduplicate_step st s))"
  by (auto simp: deduplicate_step_def Let_def split: option.splits)

lemma side_effects_kept_step:
  "sideEffects s \<Longrightarrow> stepId s \<in> stepId ` set (survivors (deduplicate_step st s))"
proof -
  assume se: "sideEffects s"
  let ?s' = "s\<lparr> dependencyIds := map (resolve (replacements st)) (dependencyIds s) \<rparr>"
  from se have "find (\<lambda>k. interchangeable k ?s') (survivors st) = None"
    by (simp add: find_None_iff interchangeable_def)
  then have "survivors (deduplicate_step st s) = survivors st @ [?s']"
    by (simp add: deduplicate_step_def)
  then show ?thesis by simp
qed

lemma side_effects_kept:
  "s \<in> set g \<Longrightarrow> sideEffects s \<Longrightarrow> stepId s \<in> stepId ` set (deduplicate g)"
proof (induction g rule: rev_induct)
  case Nil
  then show ?case by simp
next
  case (snoc t g)
  have st: "deduplicate (g @ [t]) = survivors (deduplicate_step (deduplicate_pass g) t)"
    by (simp add: deduplicate_def deduplicate_pass_snoc)
  show ?case
  proof (cases "s = t")
    case True
    with snoc.prems(2) show ?thesis
      unfolding st by (simp only: side_effects_kept_step)
  next
    case False
    with snoc.prems have "s \<in> set g" by simp
    from snoc.IH [OF this snoc.prems(2)]
    have "stepId s \<in> stepId ` set (survivors (deduplicate_pass g))" by (simp add: deduplicate_def)
    with survivors_grow [of "deduplicate_pass g" t] show ?thesis
      unfolding st by blast
  qed
qed

lemmas graph_eval =
  valid_graph_def execution_order_def lookup_step_def run_step_def example_batched_def
  deduplicate_def deduplicate_pass_def deduplicate_step_def interchangeable_def resolve_def

subsection \<open>Execution order\<close>

text \<open>
  C7: a valid step graph has a topological execution order (its creation order); any two
  execution orders differ by changes of place of mutually independent neighbours, every
  such change leads to an execution order again, and all orders leave the same bucket;
  and run in an execution order, the executor never asks for the batched operation of a
  step while a column of its dependencies is not populated: the run ends without error
  and has populated the column of every step.
\<close>

theorem execution_order_exists_unique:
  assumes "valid_graph g"
  shows "execution_order g (map stepId g) \<and>
    (\<forall>xs ys. execution_order g xs \<and> execution_order g ys \<longrightarrow> (reorder_step g)\<^sup>*\<^sup>* xs ys) \<and>
    (\<forall>xs ys. execution_order g xs \<and> reorder_step g xs ys \<longrightarrow> execution_order g ys) \<and>
    (\<forall>xs. execution_order g xs \<longrightarrow>
       (\<exists>b. run_order batched g xs Map.empty = Inr b \<and> dom b = stepId ` set g)) \<and>
    (\<forall>xs ys. execution_order g xs \<and> execution_order g ys \<longrightarrow>
       run_order batched g xs Map.empty = run_order batched g ys Map.empty)"
proof (intro conjI allI impI)
  have c: "closed g {}" by (simp add: closed_def)
  show "execution_order g (map stepId g)" by (rule creation_order [OF assms])
  show conn: "(reorder_step g)\<^sup>*\<^sup>* xs ys"
    if "execution_order g xs \<and> execution_order g ys" for xs ys
    using that orders_connected [of g "{}" xs ys] c by (simp add: execution_order_def)
  show "execution_order g ys" if "execution_order g xs \<and> reorder_step g xs ys" for xs ys
    using that reorder_step_runnable [of g xs ys "{}"] reorder_step_set [of g xs ys]
    by (simp add: execution_order_def)
  show "\<exists>b. run_order batched g xs Map.empty = Inr b \<and> dom b = stepId ` set g"
    if "execution_order g xs" for xs
    using that runnable_run_order [of g "{}" xs Map.empty batched]
    by (simp add: execution_order_def)
  show "run_order batched g xs Map.empty = run_order batched g ys Map.empty"
    if "execution_order g xs \<and> execution_order g ys" for xs ys
  proof -
    from that have "runnable g {} xs" by (simp add: execution_order_def)
    from reorder_run_order [OF conn [OF that] this] show ?thesis by simp
  qed
qed

text \<open>
  The diamond: the two orders of its middle steps are execution orders, one is reached
  from the other, and both populate the four columns; an order that starts with the last
  step is stopped at once.
\<close>

theorem execution_order_exists_unique_witness:
  "valid_graph diamond \<and>
   execution_order diamond [0, 1, 2, 3] \<and>
   execution_order diamond [0, 2, 1, 3] \<and>
   (reorder_step diamond)\<^sup>*\<^sup>* [0, 1, 2, 3] [0, 2, 1, 3] \<and>
   (\<exists>b. run_order example_batched diamond [0, 2, 1, 3] Map.empty = Inr b \<and>
        dom b = stepId ` set diamond) \<and>
   run_order example_batched diamond [0, 1, 2, 3] Map.empty =
     run_order example_batched diamond [0, 2, 1, 3] Map.empty \<and>
   run_order example_batched diamond [3, 0, 1, 2] Map.empty = Inl (ColumnNotPopulated 3 1)"
proof -
  have v: "valid_graph diamond" by (simp add: diamond_def graph_eval)
  have o2: "execution_order diamond [0, 2, 1, 3]"
    by (auto simp: diamond_def graph_eval)
  have bad: "run_order example_batched diamond [3, 0, 1, 2] Map.empty = Inl (ColumnNotPopulated 3 1)"
    by (simp add: diamond_def graph_eval)
  note inst = execution_order_exists_unique [OF v, of example_batched]
  from inst have "execution_order diamond (map stepId diamond)" by blast
  then have o1: "execution_order diamond [0, 1, 2, 3]" by (simp add: diamond_def)
  from inst o1 o2 have 1: "(reorder_step diamond)\<^sup>*\<^sup>* [0, 1, 2, 3] [0, 2, 1, 3]" by blast
  from inst o2 have 2: "\<exists>b. run_order example_batched diamond [0, 2, 1, 3] Map.empty = Inr b \<and>
        dom b = stepId ` set diamond" by blast
  from inst o1 o2 have 3: "run_order example_batched diamond [0, 1, 2, 3] Map.empty =
     run_order example_batched diamond [0, 2, 1, 3] Map.empty" by blast
  from v o1 o2 1 2 3 bad show ?thesis by blast
qed

subsection \<open>Deduplication\<close>

text \<open>
  C6: the deduplication pass run on its own result changes nothing; the result of the
  pass on a valid graph is a valid graph, and run in creation order both graphs populate
  their buckets so that the column of every step before the pass is the column of its
  survivor after the pass (a surviving step keeps its own column); and no step with side
  effects is removed.
\<close>

theorem deduplicate_idempotent_preserving:
  "deduplicate (deduplicate g) = deduplicate g \<and>
   (valid_graph g \<longrightarrow>
      valid_graph (deduplicate g) \<and>
      (\<exists>b b'. run_order batched g (map stepId g) Map.empty = Inr b \<and>
         run_order batched (deduplicate g) (map stepId (deduplicate g)) Map.empty = Inr b' \<and>
         (\<forall>i \<in> stepId ` set g. b i = b' (resolve (replacements (deduplicate_pass g)) i)) \<and>
         (\<forall>i \<in> stepId ` set (deduplicate g). b' i = b i))) \<and>
   (\<forall>s \<in> set g. sideEffects s \<longrightarrow> stepId s \<in> stepId ` set (deduplicate g))"
proof (intro conjI impI ballI)
  show "deduplicate (deduplicate g) = deduplicate g" by (rule deduplicate_twice)
  show "stepId s \<in> stepId ` set (deduplicate g)" if "s \<in> set g" "sideEffects s" for s
    using that by (rule side_effects_kept)
next
  assume v: "valid_graph g"
  note inv = deduplicate_pass_invariant [OF v, of batched]
  let ?r = "replacements (deduplicate_pass g)"
  from inv show vk: "valid_graph (deduplicate g)" by (simp add: deduplicate_def)
  from inv have sub: "stepId ` set (deduplicate g) \<subseteq> stepId ` set g" by (simp add: deduplicate_def)
  from inv have disj: "dom ?r \<inter> stepId ` set (deduplicate g) = {}" by (simp add: deduplicate_def)
  from inv have sol: "\<forall>b'. solution batched (deduplicate g) b' \<longrightarrow>
       solution batched g (\<lambda>i. if i \<in> stepId ` set g then b' (resolve ?r i) else None)"
    unfolding deduplicate_def by (elim conjE)
  from run_creation_order [OF v, of batched] obtain b where
    b: "run_order batched g (map stepId g) Map.empty = Inr b" "solution batched g b" by blast
  from run_creation_order [OF vk, of batched] obtain b' where
    b': "run_order batched (deduplicate g) (map stepId (deduplicate g)) Map.empty = Inr b'"
      "solution batched (deduplicate g) b'" by blast
  from sol b'(2) have "solution batched g (\<lambda>i. if i \<in> stepId ` set g then b' (resolve ?r i) else None)"
    by blast
  from solution_unique [OF v b(2) this]
  have eq: "b = (\<lambda>i. if i \<in> stepId ` set g then b' (resolve ?r i) else None)" .
  have 1: "\<forall>i \<in> stepId ` set g. b i = b' (resolve ?r i)"
    by (subst eq) simp
  have 2: "\<forall>i \<in> stepId ` set (deduplicate g). b' i = b i"
  proof
    fix i assume i: "i \<in> stepId ` set (deduplicate g)"
    with disj have "i \<notin> dom ?r" by blast
    then have "resolve ?r i = i" by (simp add: resolve_def domIff)
    with 1 i sub show "b' i = b i" by auto
  qed
  from b(1) b'(1) 1 2
  show "\<exists>b b'. run_order batched g (map stepId g) Map.empty = Inr b \<and>
         run_order batched (deduplicate g) (map stepId (deduplicate g)) Map.empty = Inr b' \<and>
         (\<forall>i \<in> stepId ` set g. b i = b' (resolve ?r i)) \<and>
         (\<forall>i \<in> stepId ` set (deduplicate g). b' i = b i)"
    by blast
qed


text \<open>
  The sample: step 1 is removed for step 0, then step 3 for step 2, and step 4 depends on
  step 2 twice; the two steps with side effects stay.
\<close>

theorem deduplicate_idempotent_preserving_witness:
  "valid_graph duplicated \<and>
   map stepId (deduplicate duplicated) = [0, 2, 4, 5, 6] \<and>
   map dependencyIds (deduplicate duplicated) = [[], [0], [2, 2], [4], [4]] \<and>
   deduplicate (deduplicate duplicated) = deduplicate duplicated \<and>
   valid_graph (deduplicate duplicated) \<and>
   (\<exists>b b'. run_order example_batched duplicated (map stepId duplicated) Map.empty = Inr b \<and>
      run_order example_batched (deduplicate duplicated) (map stepId (deduplicate duplicated))
        Map.empty = Inr b' \<and>
      b 3 = b' (resolve (replacements (deduplicate_pass duplicated)) 3) \<and> b' 4 = b 4) \<and>
   resolve (replacements (deduplicate_pass duplicated)) 3 = 2 \<and>
   sideEffects (duplicated ! 6) \<and> stepId (duplicated ! 6) \<in> stepId ` set (deduplicate duplicated)"
proof -
  have v: "valid_graph duplicated" by (simp add: duplicated_def graph_eval)
  have ids: "map stepId (deduplicate duplicated) = [0, 2, 4, 5, 6]"
    and deps: "map dependencyIds (deduplicate duplicated) = [[], [0], [2, 2], [4], [4]]"
    and r3: "resolve (replacements (deduplicate_pass duplicated)) 3 = 2"
    by (simp_all add: duplicated_def graph_eval)
  have m: "duplicated ! 6 \<in> set duplicated" "sideEffects (duplicated ! 6)"
    "(3 :: nat) \<in> stepId ` set duplicated"
    by (simp_all add: duplicated_def)
  have k: "(4 :: nat) \<in> stepId ` set (deduplicate duplicated)"
    using ids by (metis image_set list.set_intros(1,2))
  note inst = deduplicate_idempotent_preserving [of duplicated example_batched]
  from inst have 1: "deduplicate (deduplicate duplicated) = deduplicate duplicated" by blast
  from inst v have 2: "valid_graph (deduplicate duplicated)" by blast
  from inst v obtain b b' where
    run: "run_order example_batched duplicated (map stepId duplicated) Map.empty = Inr b"
      "run_order example_batched (deduplicate duplicated) (map stepId (deduplicate duplicated))
        Map.empty = Inr b'"
    and same: "\<forall>i \<in> stepId ` set duplicated.
        b i = b' (resolve (replacements (deduplicate_pass duplicated)) i)"
      "\<forall>i \<in> stepId ` set (deduplicate duplicated). b' i = b i"
    by blast
  from same m(3) k have "b 3 = b' (resolve (replacements (deduplicate_pass duplicated)) 3)"
    "b' 4 = b 4" by blast+
  with run have 3: "\<exists>b b'. run_order example_batched duplicated (map stepId duplicated) Map.empty = Inr b \<and>
      run_order example_batched (deduplicate duplicated) (map stepId (deduplicate duplicated))
        Map.empty = Inr b' \<and>
      b 3 = b' (resolve (replacements (deduplicate_pass duplicated)) 3) \<and> b' 4 = b 4"
    by blast
  from inst m(1,2) have 4: "stepId (duplicated ! 6) \<in> stepId ` set (deduplicate duplicated)"
    by blast
  from v ids deps 1 2 3 r3 m(2) 4 show ?thesis by blast
qed

end
